theory Spec2Isabelle
  imports Complex_Main "HOL-Library.Word" "HOL-Library.Sublist" "HOL-Library.Option_ord"
begin

section \<open>Bytes and Python indexing\<close>

text \<open>
  The mock model of \<^verbatim>\<open>guidance/models/_mock.py\<close> works on Python \<^verbatim>\<open>bytes\<close>
  objects. A byte is an 8-bit word, a byte string a list of them. The method
  \<^verbatim>\<open>startswith\<close> is the list prefix order: \<^verbatim>\<open>p.startswith(s)\<close> is \<open>prefix s p\<close>.
\<close>

type_synonym byte = "8 word"
type_synonym bytes = "byte list"

datatype error =
    UnsupportedOption
  | NoMatch nat byte
  | IndexError
  | TypeError
  | UnicodeDecodeError

text \<open>
  Indexing of a Python list or of a numpy vector by an integer: an index from \<open>-n\<close> to
  \<open>-1\<close> counts from the end, anything outside \<open>-n .. n-1\<close> raises (here: \<open>None\<close>).
\<close>

definition py_get :: "'a list \<Rightarrow> int \<Rightarrow> 'a option" where
  "py_get xs i =
     (if 0 \<le> i \<and> i < int (length xs) then Some (xs ! nat i)
      else if - int (length xs) \<le> i \<and> i < 0 then Some (xs ! nat (int (length xs) + i))
      else None)"

section \<open>ByteTrie\<close>

text \<open>
  A node of the trie: the fields \<^verbatim>\<open>prob\<close>, \<^verbatim>\<open>value\<close> (\<open>-1\<close> while no token ends
  here) and \<^verbatim>\<open>children\<close>, a dictionary from one byte to the child node, kept as an
  association list in insertion order (Python dictionaries iterate in that order).
  The fields \<^verbatim>\<open>match_version\<close>, \<^verbatim>\<open>match\<close> and \<^verbatim>\<open>partial_match\<close> are set by the
  constructor and read nowhere; the parent link is read only by \<^verbatim>\<open>parent()\<close>, which
  nothing calls. They are left out.
\<close>

datatype ByteTrie =
  ByteTrie (prob: real) (value_of: int) (children: "(byte \<times> ByteTrie) list")

text \<open>\<^verbatim>\<open>ByteTrie(parent=self)\<close>: a fresh node.\<close>

definition new_node :: ByteTrie where
  "new_node = ByteTrie 0 (- 1) []"

definition has_child :: "ByteTrie \<Rightarrow> byte \<Rightarrow> bool" where
  "has_child t b = (b \<in> fst ` set (children t))"

text \<open>\<^verbatim>\<open>child\<close> raises \<^verbatim>\<open>KeyError\<close> for a byte that has no child: \<open>None\<close>.\<close>

definition child :: "ByteTrie \<Rightarrow> byte \<Rightarrow> ByteTrie option" where
  "child t b = map_of (children t) b"

definition size_trie :: "ByteTrie \<Rightarrow> nat" where
  "size_trie t = length (children t)"

text \<open>
  \<^verbatim>\<open>insert(s, value, pos)\<close>: at the end of \<open>s\<close> the value is stored unless the node has
  one (\<^verbatim>\<open>self.value < 0\<close> is the test); before the end the child for the byte at \<open>pos\<close> is
  created when missing and the insertion continues there. The keys of a dictionary are
  pairwise distinct, so the entry of that byte is the only one the update below touches.
\<close>

function insert_trie :: "ByteTrie \<Rightarrow> bytes \<Rightarrow> int \<Rightarrow> nat \<Rightarrow> ByteTrie" where
  "insert_trie (ByteTrie p v cs) s val pos =
     (if length s \<le> pos then ByteTrie p (if v < 0 then val else v) cs
      else ByteTrie p v
             (map (\<lambda>kc. if fst kc = s ! pos
                         then (fst kc, insert_trie (snd kc) s val (pos + 1)) else kc)
                (if s ! pos \<in> fst ` set cs then cs else cs @ [(s ! pos, new_node)])))"
  by pat_completeness auto
termination
  by (relation "measure (\<lambda>(t, s, val, pos). length s - pos)") auto

text \<open>
  The constructor's loop \<^verbatim>\<open>for i, s in enumerate(byte_strings): self.insert(s, values[i])\<close>
  over the pairs of a byte string and its value.
\<close>

fun insert_all :: "(bytes \<times> int) list \<Rightarrow> ByteTrie \<Rightarrow> ByteTrie" where
  "insert_all [] t = t"
| "insert_all ((s, v) # svs) t = insert_all svs (insert_trie t s v 0)"

text \<open>
  \<^verbatim>\<open>ByteTrie(self.tokens, np.arange(len(self.tokens)))\<close>: the value of the \<open>i\<close>-th byte
  string is \<open>i\<close>.
\<close>

definition ByteTrie_init :: "bytes list \<Rightarrow> ByteTrie" where
  "ByteTrie_init byte_strings =
     insert_all (zip byte_strings (map int [0..<length byte_strings])) new_node"

subsection \<open>Aggregation of probabilities\<close>

text \<open>
  \<^verbatim>\<open>compute_probs\<close> sets \<^verbatim>\<open>prob\<close> in every node of the subtree. The loop over the
  children carries the sum \<^verbatim>\<open>self.prob\<close> accumulated so far. \<^verbatim>\<open>probs[self.value]\<close> is
  Python indexing and raises \<^verbatim>\<open>IndexError\<close> out of range: \<open>None\<close>.

  The numbers are floats. A float is taken as the real number it denotes, and the
  addition of the floats, which rounds, is the parameter \<open>fadd\<close>: every \<^verbatim>\<open>+=\<close> of the
  source is one \<open>fadd\<close>, in the order of the source.
\<close>

fun compute_probs :: "(real \<Rightarrow> real \<Rightarrow> real) \<Rightarrow> ByteTrie \<Rightarrow> real list \<Rightarrow> ByteTrie option"
  and compute_children ::
    "(real \<Rightarrow> real \<Rightarrow> real) \<Rightarrow> (byte \<times> ByteTrie) list \<Rightarrow> real list \<Rightarrow> real \<Rightarrow>
       ((byte \<times> ByteTrie) list \<times> real) option" where
  "compute_probs fadd (ByteTrie p v cs) probs =
     (case (if v \<noteq> - 1 then map_option (fadd 0) (py_get probs v) else Some 0) of
        None \<Rightarrow> None
      | Some own \<Rightarrow>
          (case compute_children fadd cs probs own of
             None \<Rightarrow> None
           | Some r \<Rightarrow> Some (ByteTrie (snd r) v (fst r))))"
| "compute_children fadd [] probs acc = Some ([], acc)"
| "compute_children fadd (kc # cs) probs acc =
     (case compute_probs fadd (snd kc) probs of
        None \<Rightarrow> None
      | Some c' \<Rightarrow>
          (case compute_children fadd cs probs (fadd acc (prob c')) of
             None \<Rightarrow> None
           | Some r \<Rightarrow> Some ((fst kc, c') # fst r, snd r)))"

section \<open>MockTokenizer\<close>

text \<open>
  The tokenizer keeps the token table and the trie built from it. The constructor passes
  \<^verbatim>\<open>bos_token_id=0\<close> and \<^verbatim>\<open>eos_token_id=0\<close> on to the base class.
\<close>

record MockTokenizer =
  tokens :: "bytes list"
  byte_trie :: ByteTrie
  bos_token_id :: nat
  eos_token_id :: nat

definition MockTokenizer_init :: "bytes list \<Rightarrow> MockTokenizer" where
  "MockTokenizer_init toks =
     \<lparr> tokens = toks, byte_trie = ByteTrie_init toks, bos_token_id = 0, eos_token_id = 0 \<rparr>"

text \<open>
  The inner loop of \<^verbatim>\<open>encode\<close>: walk down the trie from \<open>match_pos\<close> while the next byte
  has a child, remembering the last node that carries a token and the offset after it.
  The loop tests \<^verbatim>\<open>has_child\<close> before it calls \<^verbatim>\<open>child\<close>, so the \<^verbatim>\<open>KeyError\<close> of
  \<^verbatim>\<open>child\<close> cannot happen there; the branch \<open>None\<close> below is that unreachable case.
\<close>

function walk :: "ByteTrie \<Rightarrow> bytes \<Rightarrow> nat \<Rightarrow> (int \<times> nat) option \<Rightarrow> (int \<times> nat) option" where
  "walk current_node byte_string match_pos last_match =
     (if match_pos < length byte_string \<and> has_child current_node (byte_string ! match_pos)
      then (case child current_node (byte_string ! match_pos) of
              None \<Rightarrow> last_match
            | Some current_node' \<Rightarrow>
                walk current_node' byte_string (match_pos + 1)
                  (if value_of current_node' \<ge> 0
                   then Some (value_of current_node', match_pos + 1) else last_match))
      else last_match)"
  by pat_completeness auto
termination
  by (relation "measure (\<lambda>(n, bs, mp, lm). length bs - mp)") auto

declare walk.simps [simp del]

lemma walk_bounds:
  "walk n bs mp lm = Some (v, e) \<Longrightarrow> lm = Some (v, e) \<or> (mp < e \<and> e \<le> length bs)"
proof (induction n bs mp lm rule: walk.induct)
  case (1 n bs mp lm)
  show ?case
  proof (cases "mp < length bs \<and> has_child n (bs ! mp)")
    case False
    with "1.prems" show ?thesis by (simp add: walk.simps [of n bs mp lm])
  next
    case True
    show ?thesis
    proof (cases "child n (bs ! mp)")
      case None
      with True "1.prems" show ?thesis by (simp add: walk.simps [of n bs mp lm])
    next
      case (Some c)
      from True Some "1.prems"
      have w: "walk c bs (mp + 1)
                 (if value_of c \<ge> 0 then Some (value_of c, mp + 1) else lm) = Some (v, e)"
        by (simp add: walk.simps [of n bs mp lm])
      from "1.IH" [OF True Some w] True show ?thesis
        by (auto split: if_splits)
    qed
  qed
qed

text \<open>
  The outer loop of \<^verbatim>\<open>encode\<close>: from \<open>pos\<close>, take the longest match, append its token and
  go on after it; without a match raise \<^verbatim>\<open>ValueError\<close> naming the byte and the position.
\<close>

function encode_loop :: "ByteTrie \<Rightarrow> bytes \<Rightarrow> nat \<Rightarrow> int list \<Rightarrow> error + int list" where
  "encode_loop trie byte_string pos toks =
     (if pos < length byte_string then
        (case walk trie byte_string pos None of
           Some last_match \<Rightarrow>
             encode_loop trie byte_string (snd last_match) (toks @ [fst last_match])
         | None \<Rightarrow> Inl (NoMatch pos (byte_string ! pos)))
      else Inr toks)"
  by pat_completeness auto
termination
proof (relation "measure (\<lambda>(t, bs, pos, toks). length bs - pos)", goal_cases)
  case 1
  show ?case by simp
next
  case (2 trie bs pos toks lm)
  from 2(2) have "walk trie bs pos None = Some (fst lm, snd lm)" by simp
  from walk_bounds [OF this] 2(1) show ?case by auto
qed

declare encode_loop.simps [simp del]

definition encode :: "MockTokenizer \<Rightarrow> bytes \<Rightarrow> bool \<Rightarrow> error + int list" where
  "encode tk byte_string parse_special =
     (if \<not> parse_special then Inl UnsupportedOption
      else encode_loop (byte_trie tk) byte_string 0 [])"

definition recode :: "MockTokenizer \<Rightarrow> int list \<Rightarrow> int list" where
  "recode tk toks = toks"

text \<open>
  Modelled from the spec: the base class \<^verbatim>\<open>Tokenizer\<close> (module \<^verbatim>\<open>_engine\<close>) is not part
  of the sources. Its \<^verbatim>\<open>decode\<close> is "concatenation of each id's vocabulary bytes (simple
  lookup, no failure modes beyond out-of-range id)", and the bytes of the beginning- and
  end-of-sequence tokens are the vocabulary bytes of their ids; \<^verbatim>\<open>bos_token\<close> is optional
  (the source tests it against \<^verbatim>\<open>None\<close>), here \<open>None\<close> when the id has no entry.
\<close>

fun decode_ids :: "bytes list \<Rightarrow> int list \<Rightarrow> error + bytes" where
  "decode_ids toks [] = Inr []"
| "decode_ids toks (i # ids) =
     (if 0 \<le> i \<and> i < int (length toks) then
        (case decode_ids toks ids of Inl e \<Rightarrow> Inl e | Inr bs \<Rightarrow> Inr (toks ! nat i @ bs))
      else Inl IndexError)"

definition decode :: "MockTokenizer \<Rightarrow> int list \<Rightarrow> error + bytes" where
  "decode tk ids = decode_ids (tokens tk) ids"

definition bos_token :: "MockTokenizer \<Rightarrow> bytes option" where
  "bos_token tk = py_get (tokens tk) (int (bos_token_id tk))"

definition eos_token :: "MockTokenizer \<Rightarrow> bytes option" where
  "eos_token tk = py_get (tokens tk) (int (eos_token_id tk))"

section \<open>Well-formed UTF-8\<close>

text \<open>
  \<^verbatim>\<open>t.decode("utf8")\<close> succeeds exactly on well-formed UTF-8 (Unicode, table 3-7: no
  overlong forms, no surrogates, nothing above U+10FFFF).
\<close>

definition cont :: "byte \<Rightarrow> bool" where
  "cont b = (0x80 \<le> b \<and> b \<le> 0xBF)"

fun utf8_valid :: "bytes \<Rightarrow> bool" where
  "utf8_valid [] = True"
| "utf8_valid (b # bs) =
     (if b \<le> 0x7F then utf8_valid bs
      else if 0xC2 \<le> b \<and> b \<le> 0xDF then
        (case bs of c1 # r \<Rightarrow> cont c1 \<and> utf8_valid r | _ \<Rightarrow> False)
      else if 0xE0 \<le> b \<and> b \<le> 0xEF then
        (case bs of
           c1 # c2 # r \<Rightarrow>
             (if b = 0xE0 then 0xA0 \<le> c1 \<and> c1 \<le> 0xBF
              else if b = 0xED then 0x80 \<le> c1 \<and> c1 \<le> 0x9F
              else cont c1) \<and> cont c2 \<and> utf8_valid r
         | _ \<Rightarrow> False)
      else if 0xF0 \<le> b \<and> b \<le> 0xF4 then
        (case bs of
           c1 # c2 # c3 # r \<Rightarrow>
             (if b = 0xF0 then 0x90 \<le> c1 \<and> c1 \<le> 0xBF
              else if b = 0xF4 then 0x80 \<le> c1 \<and> c1 \<le> 0x8F
              else cont c1) \<and> cont c2 \<and> cont c3 \<and> utf8_valid r
         | _ \<Rightarrow> False)
      else False)"

section \<open>MockEngine\<close>

text \<open>
  A score is a float that is never NaN or \<open>+\<infinity>\<close> here: either \<open>-\<infinity>\<close> or a finite
  number, taken as a real (rounding is not modelled). Adding a finite bias to \<open>-\<infinity>\<close>
  gives \<open>-\<infinity>\<close>, as IEEE 754 addition does.
\<close>

datatype score = NegInf | Fin real

fun add_bias :: "score \<Rightarrow> real \<Rightarrow> score" where
  "add_bias NegInf b = NegInf"
| "add_bias (Fin x) b = Fin (x + b)"

text \<open>The order of scores, through the order of \<open>real option\<close> with \<open>None\<close> least.\<close>

fun score_key :: "score \<Rightarrow> real option" where
  "score_key NegInf = None"
| "score_key (Fin x) = Some x"

text \<open>
  The generator \<^verbatim>\<open>np.random.default_rng(seed)\<close>: without a seed numpy takes fresh entropy
  from the operating system, with a seed the stream is a function of the seed alone. The
  generator's state is the seed in use and how many values were drawn; the stream of
  standard-normal values belonging to a seed is numpy's and is a parameter \<open>normal\<close> of
  whatever draws from the generator.
\<close>

record rng =
  rng_seed :: nat
  cursor :: nat

definition default_rng :: "nat \<Rightarrow> nat option \<Rightarrow> rng" where
  "default_rng os_entropy seed =
     \<lparr> rng_seed = (case seed of None \<Rightarrow> os_entropy | Some s \<Rightarrow> s), cursor = 0 \<rparr>"

definition standard_normal :: "(nat \<Rightarrow> nat \<Rightarrow> real) \<Rightarrow> rng \<Rightarrow> nat \<Rightarrow> real list \<times> rng" where
  "standard_normal normal g n =
     (map (\<lambda>k. normal (rng_seed g) (cursor g + k)) [0..<n], g\<lparr>cursor := cursor g + n\<rparr>)"

record MockEngine =
  tokenizer :: MockTokenizer
  compute_log_probs :: bool
  valid_mask :: "real list"
  force :: bool
  called_temperatures :: "real list"
  byte_patterns :: "bytes list"
  rand_generator :: rng

text \<open>
  The argument \<^verbatim>\<open>byte_patterns\<close> is one pattern or a list of patterns. A pattern given
  as \<^verbatim>\<open>str\<close> is replaced by its UTF-8 bytes; patterns are taken here as bytes.
\<close>

datatype patterns_arg = OnePattern bytes | Patterns "bytes list"

definition MockEngine_init ::
  "nat \<Rightarrow> MockTokenizer \<Rightarrow> patterns_arg \<Rightarrow> bool \<Rightarrow> bool \<Rightarrow> MockEngine" where
  "MockEngine_init os_entropy tk pats clp frc =
     \<lparr> tokenizer = tk,
       compute_log_probs = clp,
       valid_mask = map (\<lambda>t. if utf8_valid t then 1 else 0) (tokens tk),
       force = frc,
       called_temperatures = [],
       byte_patterns = (case pats of OnePattern p \<Rightarrow> [p] | Patterns ps \<Rightarrow> ps),
       rand_generator = default_rng os_entropy (Some 42) \<rparr>"

text \<open>
  \<^verbatim>\<open>_get_next_tokens\<close>, the list of what the generator yields: the id of the first special
  token that the byte string starts with and nothing else, or else every token of the
  table that the byte string starts with, in table order. \<^verbatim>\<open>startswith(None)\<close> raises
  \<^verbatim>\<open>TypeError\<close>.
\<close>

fun special_scan :: "(nat \<times> bytes option) list \<Rightarrow> bytes \<Rightarrow> error + nat option" where
  "special_scan [] byte_string = Inr None"
| "special_scan ((i, t) # sts) byte_string =
     (case t of
        None \<Rightarrow> Inl TypeError
      | Some tb \<Rightarrow> if prefix tb byte_string then Inr (Some i) else special_scan sts byte_string)"

definition get_next_tokens :: "MockTokenizer \<Rightarrow> bytes \<Rightarrow> error + nat list" where
  "get_next_tokens tk byte_string =
     (case special_scan [(bos_token_id tk, bos_token tk), (eos_token_id tk, eos_token tk)]
             byte_string of
        Inl e \<Rightarrow> Inl e
      | Inr (Some i) \<Rightarrow> Inr [i]
      | Inr None \<Rightarrow>
          Inr (filter (\<lambda>i. prefix (tokens tk ! i) byte_string) [0..<length (tokens tk)]))"

text \<open>
  The inner loop \<^verbatim>\<open>logits[i] += bias; bias /= 2\<close> over the yielded tokens, on the pair
  of the score vector and the current bias. Every yielded id is an index of the table.
\<close>

fun bias_tokens :: "nat list \<Rightarrow> score list \<times> real \<Rightarrow> score list \<times> real" where
  "bias_tokens [] lb = lb"
| "bias_tokens (i # is) (logits, bias) =
     bias_tokens is (logits[i := add_bias (logits ! i) bias], bias / 2)"

text \<open>The loop over the patterns.\<close>

fun bias_patterns ::
  "MockTokenizer \<Rightarrow> bytes \<Rightarrow> bytes list \<Rightarrow> score list \<times> real \<Rightarrow> error + score list \<times> real" where
  "bias_patterns tk byte_string [] lb = Inr lb"
| "bias_patterns tk byte_string (p # ps) lb =
     (if prefix byte_string p \<and> length p > length byte_string then
        (case get_next_tokens tk (drop (length byte_string) p) of
           Inl e \<Rightarrow> Inl e
         | Inr is \<Rightarrow> bias_patterns tk byte_string ps (bias_tokens is lb))
      else bias_patterns tk byte_string ps lb)"

text \<open>\<^verbatim>\<open>b"".join(self.tokenizer.tokens[i] for i in token_ids)\<close>, with Python's indexing.\<close>

fun join_tokens :: "bytes list \<Rightarrow> int list \<Rightarrow> bytes option" where
  "join_tokens toks [] = Some []"
| "join_tokens toks (i # ids) =
     (case py_get toks i of
        None \<Rightarrow> None
      | Some t \<Rightarrow> (case join_tokens toks ids of None \<Rightarrow> None | Some bs \<Rightarrow> Some (t @ bs)))"

text \<open>
  \<^verbatim>\<open>get_logits\<close> returns the score vector and the engine, whose generator has moved on
  when it was drawn from.
\<close>

definition get_logits ::
  "(nat \<Rightarrow> nat \<Rightarrow> real) \<Rightarrow> MockEngine \<Rightarrow> int list \<Rightarrow> error + score list \<times> MockEngine" where
  "get_logits normal eng token_ids =
     (case join_tokens (tokens (tokenizer eng)) token_ids of
        None \<Rightarrow> Inl IndexError
      | Some byte_string \<Rightarrow>
          let n = length (tokens (tokenizer eng));
              drawn = standard_normal normal (rand_generator eng) n;
              logits = (if force eng then replicate n NegInf
                        else map2 (\<lambda>z m. Fin (z * m)) (fst drawn) (valid_mask eng));
              eng' = (if force eng then eng else eng\<lparr>rand_generator := snd drawn\<rparr>)
          in (case bias_patterns (tokenizer eng) byte_string (byte_patterns eng) (logits, 100) of
                Inl e \<Rightarrow> Inl e
              | Inr lb \<Rightarrow> Inr (fst lb, eng')))"

text \<open>
  \<^verbatim>\<open>softmax\<close> comes from \<^verbatim>\<open>_utils\<close>, which is not part of the sources: it is a parameter.
  \<^verbatim>\<open>np.argsort\<close> gives the indices in ascending order of their scores; for equal scores
  numpy promises no order and the stable one is taken here.
\<close>

definition argsort :: "score list \<Rightarrow> nat list" where
  "argsort logits = sort_key (\<lambda>i. score_key (logits ! i)) [0..<length logits]"

text \<open>
  The slice \<^verbatim>\<open>xs[-top_k:]\<close>: the last \<open>top_k\<close> elements for a positive \<open>top_k\<close>, all
  of \<open>xs\<close> for \<open>top_k = 0\<close> (the start \<open>-0\<close> is \<open>0\<close>), and \<open>xs\<close> without its first
  \<open>-top_k\<close> elements for a negative one.
\<close>

definition slice_from_neg :: "'a list \<Rightarrow> int \<Rightarrow> 'a list" where
  "slice_from_neg xs top_k =
     (if top_k > 0 then drop (length xs - nat top_k) xs else drop (nat (- top_k)) xs)"

record GenToken =
  token_id :: int
  prob :: "real option"
  bytes :: bytes

record GenTokenExtra = GenToken +
  top_k :: "GenToken list"

text \<open>\<^verbatim>\<open>self.tokenizer.decode([token_id]).decode("utf8")\<close>: the text of one token.\<close>

definition decode_utf8 :: "MockTokenizer \<Rightarrow> int \<Rightarrow> error + bytes" where
  "decode_utf8 tk i =
     (case decode tk [i] of
        Inl e \<Rightarrow> Inl e
      | Inr bs \<Rightarrow> if utf8_valid bs then Inr bs else Inl UnicodeDecodeError)"

text \<open>
  The loop \<^verbatim>\<open>for token_id in top_k_indices\<close> that builds \<^verbatim>\<open>top_k_result\<close>. It binds the
  variable \<^verbatim>\<open>token_id\<close> of the enclosing loop, so the state of the loop is the list built
  so far and the current value of \<^verbatim>\<open>token_id\<close>.
\<close>

fun top_k_loop ::
  "MockTokenizer \<Rightarrow> real list \<Rightarrow> int list \<Rightarrow> GenToken list \<times> int \<Rightarrow> error + GenToken list \<times> int" where
  "top_k_loop tk probs [] st = Inr st"
| "top_k_loop tk probs (j # js) (top_k_result, tid) =
     (case py_get probs j of
        None \<Rightarrow> Inl IndexError
      | Some pr \<Rightarrow>
          (case decode_utf8 tk j of
             Inl e \<Rightarrow> Inl e
           | Inr bs \<Rightarrow>
               top_k_loop tk probs js
                 (top_k_result @ [\<lparr> token_id = j, prob = Some pr, bytes = bs \<rparr>], j)))"

text \<open>The loop \<^verbatim>\<open>for i in range(1, len(token_ids))\<close> of \<^verbatim>\<open>get_per_token_topk_probs\<close>.\<close>

function positions_loop ::
  "(nat \<Rightarrow> nat \<Rightarrow> real) \<Rightarrow> (score list \<Rightarrow> real list) \<Rightarrow> MockEngine \<Rightarrow> int list \<Rightarrow> int \<Rightarrow> nat \<Rightarrow>
     GenTokenExtra list \<Rightarrow> error + GenTokenExtra list \<times> MockEngine" where
  "positions_loop normal softmax eng token_ids k i result_list =
     (if i < length token_ids then
        (case get_logits normal eng (take i token_ids) of
           Inl e \<Rightarrow> Inl e
         | Inr le \<Rightarrow>
             let probs = softmax (fst le);
                 top = map int (rev (slice_from_neg (argsort (fst le)) k));
                 top_k_indices = (if token_ids ! i \<notin> set top then top @ [token_ids ! i] else top)
             in (case top_k_loop (tokenizer eng) probs top_k_indices ([], token_ids ! i) of
                   Inl e \<Rightarrow> Inl e
                 | Inr rt \<Rightarrow>
                     (case py_get probs (snd rt) of
                        None \<Rightarrow> Inl IndexError
                      | Some pr \<Rightarrow>
                          (case decode_utf8 (tokenizer eng) (snd rt) of
                             Inl e \<Rightarrow> Inl e
                           | Inr bs \<Rightarrow>
                               positions_loop normal softmax (snd le) token_ids k (i + 1)
                                 (result_list @
                                    [\<lparr> token_id = snd rt, prob = Some pr, bytes = bs,
                                       top_k = fst rt \<rparr>])))))
      else Inr (result_list, eng))"
  by pat_completeness auto
termination
  by (relation "measure (\<lambda>(normal, softmax, eng, token_ids, k, i, r). length token_ids - i)") auto

declare positions_loop.simps [simp del]

definition get_per_token_topk_probs ::
  "(nat \<Rightarrow> nat \<Rightarrow> real) \<Rightarrow> (score list \<Rightarrow> real list) \<Rightarrow> MockEngine \<Rightarrow> int list \<Rightarrow> int \<Rightarrow>
     error + GenTokenExtra list \<times> MockEngine" where
  "get_per_token_topk_probs normal softmax eng token_ids k =
     (if length token_ids = 0 then Inr ([], eng)
      else
        let tk = tokenizer eng;
            added_bos = (bos_token tk \<noteq> None \<and> token_ids ! 0 \<noteq> int (bos_token_id tk));
            token_ids' = (if added_bos then int (bos_token_id tk) # token_ids else token_ids)
        in (case decode_utf8 tk (token_ids' ! 0) of
              Inl e \<Rightarrow> Inl e
            | Inr bs \<Rightarrow>
                (case positions_loop normal softmax eng token_ids' k 1
                        [\<lparr> token_id = token_ids' ! 0, prob = Some 1, bytes = bs,
                           top_k = [\<lparr> token_id = token_ids' ! 0, prob = None, bytes = bs \<rparr>] \<rparr>] of
                   Inl e \<Rightarrow> Inl e
                 | Inr re \<Rightarrow> Inr (if added_bos then drop 1 (fst re) else fst re, snd re))))"

section \<open>Mock\<close>

text \<open>
  The vocabulary of \<^verbatim>\<open>Mock\<close>: \<^verbatim>\<open><s>\<close>, the pairs of letters from
  \<^verbatim>\<open>range(ord("a"), ord("z"))\<close> (the letters a to y), and the 256 single bytes.
\<close>

definition all_lc_pairs :: "bytes list" where
  "all_lc_pairs = concat (map (\<lambda>i. map (\<lambda>j. [of_nat i, of_nat j]) [97..<122]) [97..<122])"

definition all_bytes :: "bytes list" where
  "all_bytes = map (\<lambda>i. [of_nat i]) [0..<256]"

definition Mock_tokens :: "bytes list" where
  "Mock_tokens = [[0x3C, 0x73, 0x3E]] @ all_lc_pairs @ all_bytes"

definition Mock_init :: "nat \<Rightarrow> patterns_arg \<Rightarrow> bool \<Rightarrow> bool \<Rightarrow> MockEngine" where
  "Mock_init os_entropy pats clp frc =
     MockEngine_init os_entropy (MockTokenizer_init Mock_tokens) pats clp frc"

section \<open>Auxiliary notions for the statements\<close>

text \<open>
  For the trie: the node reached from \<open>t\<close> along a byte string, the
  value found there (\<open>-1\<close> when there is no such node, as for a node without a token), and
  the Python slice \<open>bs[i:j]\<close>.
\<close>

fun descend :: "ByteTrie \<Rightarrow> bytes \<Rightarrow> ByteTrie option" where
  "descend t [] = Some t"
| "descend t (b # bs) = (case child t b of None \<Rightarrow> None | Some c \<Rightarrow> descend c bs)"

definition value_at :: "ByteTrie \<Rightarrow> bytes \<Rightarrow> int" where
  "value_at t p = (case descend t p of None \<Rightarrow> - 1 | Some n \<Rightarrow> value_of n)"

definition py_slice :: "'a list \<Rightarrow> nat \<Rightarrow> nat \<Rightarrow> 'a list" where
  "py_slice xs i j = take (j - i) (drop i xs)"

text \<open>The first index of an element of a list, as an integer; \<open>-1\<close> when there is none.\<close>

fun index_from :: "'a list \<Rightarrow> 'a \<Rightarrow> nat \<Rightarrow> int" where
  "index_from [] x k = - 1"
| "index_from (y # ys) x k = (if y = x then int k else index_from ys x (k + 1))"

definition first_index :: "'a list \<Rightarrow> 'a \<Rightarrow> int" where
  "first_index xs x = index_from xs x 0"

text \<open>
  At position \<open>p\<close> of \<open>bs\<close>, \<open>e\<close> is the end of the longest token that starts there; or no
  token starts there at all. The positions the scan visits are those reached from \<open>0\<close> by
  going from a position to the end of its longest token.
\<close>

definition match_end :: "bytes list \<Rightarrow> bytes \<Rightarrow> nat \<Rightarrow> nat \<Rightarrow> bool" where
  "match_end toks bs p e \<longleftrightarrow>
     p < e \<and> e \<le> length bs \<and> py_slice bs p e \<in> set toks \<and>
     (\<forall>e'. e < e' \<and> e' \<le> length bs \<longrightarrow> py_slice bs p e' \<notin> set toks)"

definition no_match :: "bytes list \<Rightarrow> bytes \<Rightarrow> nat \<Rightarrow> bool" where
  "no_match toks bs p \<longleftrightarrow> (\<forall>e. p < e \<and> e \<le> length bs \<longrightarrow> py_slice bs p e \<notin> set toks)"

definition scan_reaches :: "bytes list \<Rightarrow> bytes \<Rightarrow> nat \<Rightarrow> bool" where
  "scan_reaches toks bs p \<longleftrightarrow> (match_end toks bs)\<^sup>*\<^sup>* 0 p"

text \<open>
  For the aggregation: the nodes of a subtree, the sum of \<open>f value\<close> over the nodes of a
  subtree that carry a token (\<open>value \<noteq> -1\<close>, the test of \<^verbatim>\<open>compute_probs\<close>), the entry of
  a probability vector under Python's indexing (\<open>0\<close> where there is none), and two
  invariants of the tries that \<^verbatim>\<open>insert\<close> builds: the keys of a dictionary are pairwise
  distinct, and every value is \<open>-1\<close> or an index below \<open>n\<close>.
\<close>

fun subtries :: "ByteTrie \<Rightarrow> ByteTrie list" where
  "subtries (ByteTrie p v cs) = ByteTrie p v cs # concat (map (\<lambda>kc. subtries (snd kc)) cs)"

fun terminal_sum :: "(int \<Rightarrow> real) \<Rightarrow> ByteTrie \<Rightarrow> real" where
  "terminal_sum f (ByteTrie p v cs) =
     (if v \<noteq> - 1 then f v else 0) + sum_list (map (\<lambda>kc. terminal_sum f (snd kc)) cs)"

definition probs_at :: "real list \<Rightarrow> int \<Rightarrow> real" where
  "probs_at probs v = (case py_get probs v of None \<Rightarrow> 0 | Some x \<Rightarrow> x)"

fun distinct_keys :: "ByteTrie \<Rightarrow> bool" where
  "distinct_keys (ByteTrie p v cs) \<longleftrightarrow>
     distinct (map fst cs) \<and> list_all (\<lambda>kc. distinct_keys (snd kc)) cs"

fun values_below :: "nat \<Rightarrow> ByteTrie \<Rightarrow> bool" where
  "values_below n (ByteTrie p v cs) \<longleftrightarrow>
     (v = - 1 \<or> (0 \<le> v \<and> v < int n)) \<and> list_all (\<lambda>kc. values_below n (snd kc)) cs"

text \<open>
  The value that the code accumulates at a node, as a function of the subtree: start at
  \<open>0\<close>, add the node's own \<open>f value\<close> when it carries a token, then add the accumulated
  values of the children in the order of the dictionary, every addition being \<open>fadd\<close>.
  And a trie with its \<^verbatim>\<open>prob\<close> fields cleared: its nodes, keys and values.
\<close>

fun accumulated :: "(real \<Rightarrow> real \<Rightarrow> real) \<Rightarrow> (int \<Rightarrow> real) \<Rightarrow> ByteTrie \<Rightarrow> real" where
  "accumulated fadd f (ByteTrie p v cs) =
     foldl fadd (if v \<noteq> - 1 then fadd 0 (f v) else 0)
       (map (\<lambda>kc. accumulated fadd f (snd kc)) cs)"

fun clear_probs :: "ByteTrie \<Rightarrow> ByteTrie" where
  "clear_probs (ByteTrie p v cs) = ByteTrie 0 v (map (\<lambda>kc. (fst kc, clear_probs (snd kc))) cs)"

text \<open>The indices of a list at which its element occurs for the first time.\<close>

definition first_ids :: "'a list \<Rightarrow> nat list" where
  "first_ids xs = filter (\<lambda>i. xs ! i \<notin> set (take i xs)) [0..<length xs]"

text \<open>
  The addition of IEEE 754 doubles on results in the normal range: the exact sum,
  rounded to 53 significant bits, to the nearest and to the even one of two nearest
  (overflow, subnormal results and NaN are left out).
\<close>

definition rne :: "real \<Rightarrow> int" where
  "rne q =
     (let f = \<lfloor>q\<rfloor>
      in if q - of_int f < 1 / 2 then f
         else if 1 / 2 < q - of_int f then f + 1
         else if even f then f else f + 1)"

definition round_double :: "real \<Rightarrow> real" where
  "round_double x =
     (if x = 0 then 0
      else of_int (rne (x / 2 powr (of_int \<lfloor>log 2 \<bar>x\<bar>\<rfloor> - 52))) *
             2 powr (of_int \<lfloor>log 2 \<bar>x\<bar>\<rfloor> - 52))"

definition dadd :: "real \<Rightarrow> real \<Rightarrow> real" where
  "dadd x y = round_double (x + y)"

text \<open>
  A run of \<^verbatim>\<open>get_logits\<close> calls on one engine: the vectors returned, call by call. A call
  that raises leaves the generator where it was (an \<^verbatim>\<open>IndexError\<close> comes before the draw,
  and a \<^verbatim>\<open>TypeError\<close> needs an empty token table, for which the draw takes nothing).
\<close>

fun get_logits_calls ::
  "(nat \<Rightarrow> nat \<Rightarrow> real) \<Rightarrow> MockEngine \<Rightarrow> int list list \<Rightarrow> (error + score list) list" where
  "get_logits_calls normal eng [] = []"
| "get_logits_calls normal eng (token_ids # calls) =
     (case get_logits normal eng token_ids of
        Inl e \<Rightarrow> Inl e # get_logits_calls normal eng calls
      | Inr le \<Rightarrow> Inr (fst le) # get_logits_calls normal (snd le) calls)"

text \<open>
  The tokens yielded over the loop of the patterns, in order, and the bias that token
  \<open>j\<close> receives from a sequence of yields when the bias starts at \<open>b\<close>.
\<close>

fun yielded :: "MockTokenizer \<Rightarrow> bytes \<Rightarrow> bytes list \<Rightarrow> error + nat list" where
  "yielded tk byte_string [] = Inr []"
| "yielded tk byte_string (p # ps) =
     (if prefix byte_string p \<and> length p > length byte_string then
        (case get_next_tokens tk (drop (length byte_string) p) of
           Inl e \<Rightarrow> Inl e
         | Inr ys \<Rightarrow>
             (case yielded tk byte_string ps of Inl e \<Rightarrow> Inl e | Inr zs \<Rightarrow> Inr (ys @ zs)))
      else yielded tk byte_string ps)"

fun bias_total :: "nat list \<Rightarrow> real \<Rightarrow> nat \<Rightarrow> real" where
  "bias_total [] b j = 0"
| "bias_total (i # is) b j = (if i = j then b else 0) + bias_total is (b / 2) j"



text \<open>
  Modelled from the spec: a softmax to put in place of the parameter \<open>softmax\<close> at
  concrete inputs (\<^verbatim>\<open>_utils.softmax\<close> is not part of the sources): the exponentials of the
  scores over their sum, with \<open>exp (-\<infinity>) = 0\<close>. It is meant for vectors with a finite
  score.
\<close>

fun score_exp :: "score \<Rightarrow> real" where
  "score_exp NegInf = 0"
| "score_exp (Fin x) = exp x"

definition softmax_exp :: "score list \<Rightarrow> real list" where
  "softmax_exp l = map (\<lambda>s. score_exp s / sum_list (map score_exp l)) l"

text \<open>
  The table \<^verbatim>\<open><s>\<close>, \<^verbatim>\<open>a\<close>, \<^verbatim>\<open>ab\<close> with the pattern \<^verbatim>\<open><s>ab\<close>, without \<^verbatim>\<open>force\<close>.
\<close>

definition sab_tokens :: "bytes list" where
  "sab_tokens = [[0x3C, 0x73, 0x3E], [0x61], [0x61, 0x62]]"

definition sab_engine :: MockEngine where
  "sab_engine =
     MockEngine_init 0 (MockTokenizer_init sab_tokens)
       (OnePattern [0x3C, 0x73, 0x3E, 0x61, 0x62]) False False"

section \<open>The trie as a map from byte strings to values\<close>

lemma map_of_map_upd:
  "map_of (map (\<lambda>kc. if fst kc = k then (fst kc, g (snd kc)) else kc) cs) b =
     (if b = k then map_option g (map_of cs b) else map_of cs b)"
  by (induction cs) auto

lemma child_insert_trie:
  assumes "pos < length s"
  shows "child (insert_trie t s v pos) b =
           (if b = s ! pos
            then Some (insert_trie (case child t b of None \<Rightarrow> new_node | Some c \<Rightarrow> c) s v (pos + 1))
            else child t b)"
proof (cases t)
  case (ByteTrie p w cs)
  show ?thesis
  proof (cases "s ! pos \<in> fst ` set cs")
    case True
    then obtain c where "map_of cs (s ! pos) = Some c"
      by (metis map_of_eq_None_iff not_Some_eq)
    with True assms ByteTrie show ?thesis
      by (simp add: child_def map_of_map_upd [where g = "\<lambda>c. insert_trie c s v (pos + 1)"])
  next
    case False
    then have "map_of cs (s ! pos) = None"
      by (simp add: map_of_eq_None_iff)
    with False assms ByteTrie show ?thesis
      by (auto simp: child_def map_add_def
            map_of_map_upd [where g = "\<lambda>c. insert_trie c s v (pos + 1)"]
            split: option.splits)
  qed
qed

lemma children_insert_trie_end:
  "length s \<le> pos \<Longrightarrow> children (insert_trie t s v pos) = children t"
  by (cases t) simp

lemma value_of_insert_trie:
  "value_of (insert_trie t s v pos) =
     (if length s \<le> pos then (if value_of t < 0 then v else value_of t) else value_of t)"
  by (cases t) simp

lemma value_at_Nil [simp]: "value_at t [] = value_of t"
  by (simp add: value_at_def)

lemma value_at_Cons:
  "value_at t (b # bs) = (case child t b of None \<Rightarrow> - 1 | Some c \<Rightarrow> value_at c bs)"
  by (simp add: value_at_def split: option.splits)

lemma value_at_new_node [simp]: "value_at new_node p = - 1"
  by (cases p) (simp_all add: value_at_Cons new_node_def child_def)

lemma value_at_insert_trie:
  "pos \<le> length s \<Longrightarrow>
   value_at (insert_trie t s v pos) p =
     (if p = drop pos s \<and> value_at t p < 0 then v else value_at t p)"
proof (induction p arbitrary: t pos)
  case Nil
  then show ?case by (auto simp: value_of_insert_trie)
next
  case (Cons b q)
  show ?case
  proof (cases "length s \<le> pos")
    case True
    then show ?thesis
      by (simp add: value_at_Cons child_def children_insert_trie_end)
  next
    case False
    then have lt: "pos < length s" by simp
    have dr: "drop pos s = s ! pos # drop (pos + 1) s"
      using lt by (simp add: Cons_nth_drop_Suc)
    show ?thesis
    proof (cases "b = s ! pos")
      case False
      with lt dr show ?thesis
        by (simp add: value_at_Cons child_insert_trie)
    next
      case True
      have le: "pos + 1 \<le> length s" using lt by simp
      show ?thesis
        using True lt dr Cons.IH [OF le]
        by (auto simp: value_at_Cons child_insert_trie split: option.splits)
    qed
  qed
qed

lemma insert_trie_twice:
  "0 \<le> v1 \<Longrightarrow> insert_trie (insert_trie t s v1 pos) s v2 pos = insert_trie t s v1 pos"
proof (induction t s v1 pos rule: insert_trie.induct)
  case (1 p v cs s val pos)
  show ?case
  proof (cases "length s \<le> pos")
    case True
    with "1.prems" show ?thesis by simp
  next
    case False
    let ?cs' = "if s ! pos \<in> fst ` set cs then cs else cs @ [(s ! pos, new_node)]"
    let ?F = "\<lambda>w kc. if fst kc = s ! pos
                      then (fst kc, insert_trie (snd kc) s w (pos + 1)) else kc"
    have "map fst (map (?F val) ?cs') = map fst ?cs'"
      by (rule nth_equalityI) auto
    then have "fst ` set (map (?F val) ?cs') = fst ` set ?cs'"
      by (metis set_map)
    then have key: "s ! pos \<in> fst ` set (map (?F val) ?cs')"
      by simp
    have "map (?F v2) (map (?F val) ?cs') = map (?F val) ?cs'"
    proof -
      have "?F v2 (?F val kc) = ?F val kc" if "kc \<in> set ?cs'" for kc
        using "1.IH" [OF False that _ "1.prems"] by auto
      then show ?thesis by (simp add: map_idI)
    qed
    with False key show ?thesis by simp
  qed
qed

lemma value_at_insert_all:
  "(\<And>s v. (s, v) \<in> set svs \<Longrightarrow> 0 \<le> v) \<Longrightarrow>
   value_at (insert_all svs t) p =
     (if value_at t p < 0
      then (case map_of svs p of None \<Rightarrow> value_at t p | Some v \<Rightarrow> v)
      else value_at t p)"
proof (induction svs arbitrary: t)
  case Nil
  then show ?case by simp
next
  case (Cons sv svs)
  obtain s v where sv: "sv = (s, v)" by (cases sv)
  have v: "0 \<le> v" using Cons.prems [of s v] sv by simp
  have rest: "\<And>s v. (s, v) \<in> set svs \<Longrightarrow> 0 \<le> v"
    using Cons.prems by auto
  have "value_at (insert_all svs (insert_trie t s v 0)) p =
          (if value_at (insert_trie t s v 0) p < 0
           then (case map_of svs p of None \<Rightarrow> value_at (insert_trie t s v 0) p | Some v \<Rightarrow> v)
           else value_at (insert_trie t s v 0) p)"
    by (rule Cons.IH [OF rest])
  with v sv show ?case
    by (auto simp: value_at_insert_trie split: option.splits)
qed

lemma map_of_zip_index_from:
  "map_of (zip xs (map int [k..<k + length xs])) x =
     (if x \<in> set xs then Some (index_from xs x k) else None)"
proof (induction xs arbitrary: k)
  case Nil
  then show ?case by simp
next
  case (Cons y ys)
  have "[k..<k + length (y # ys)] = k # [k + 1..<(k + 1) + length ys]"
    using upt_conv_Cons [of k "k + length (y # ys)"] by simp
  with Cons.IH [of "k + 1"] show ?case by auto
qed

lemma index_from_props:
  "x \<in> set xs \<Longrightarrow>
   \<exists>j < length xs. index_from xs x k = int (k + j) \<and> xs ! j = x \<and> (\<forall>i < j. xs ! i \<noteq> x)"
proof (induction xs arbitrary: k)
  case Nil
  then show ?case by simp
next
  case (Cons y ys)
  show ?case
  proof (cases "y = x")
    case True
    then show ?thesis by (intro exI [of _ 0]) simp
  next
    case False
    with Cons.prems have "x \<in> set ys" by simp
    from Cons.IH [OF this, of "k + 1"] obtain j where
      j: "j < length ys" "index_from ys x (k + 1) = int (k + 1 + j)" "ys ! j = x"
         "\<forall>i < j. ys ! i \<noteq> x"
      by blast
    show ?thesis
    proof (intro exI [of _ "Suc j"] conjI allI impI)
      fix i assume "i < Suc j"
      with j(4) False show "(y # ys) ! i \<noteq> x"
        by (cases i) auto
    qed (use j False in auto)
  qed
qed

lemma index_from_absent: "x \<notin> set xs \<Longrightarrow> index_from xs x k = - 1"
  by (induction xs arbitrary: k) auto

lemma first_index_props:
  assumes "x \<in> set xs"
  shows "0 \<le> first_index xs x \<and> nat (first_index xs x) < length xs \<and>
         xs ! nat (first_index xs x) = x \<and> (\<forall>j < nat (first_index xs x). xs ! j \<noteq> x)"
  using index_from_props [OF assms, of 0] by (auto simp: first_index_def)

lemma first_index_absent: "x \<notin> set xs \<Longrightarrow> first_index xs x = - 1"
  by (simp add: first_index_def index_from_absent)

lemma first_index_nonneg_iff: "0 \<le> first_index xs x \<longleftrightarrow> x \<in> set xs"
  using first_index_props [of x xs] first_index_absent [of x xs]
  by (cases "x \<in> set xs") simp_all

text \<open>The trie of a token table holds at every byte string the first id of that string.\<close>

lemma value_at_ByteTrie_init: "value_at (ByteTrie_init toks) p = first_index toks p"
proof -
  have nn: "\<And>s v. (s, v) \<in> set (zip toks (map int [0..<length toks])) \<Longrightarrow> 0 \<le> v"
    by (auto simp: set_zip)
  have "map_of (zip toks (map int [0..<0 + length toks])) p =
          (if p \<in> set toks then Some (index_from toks p 0) else None)"
    by (rule map_of_zip_index_from)
  then show ?thesis
    unfolding ByteTrie_init_def
    by (simp add: value_at_insert_all [OF nn] first_index_def index_from_absent)
qed

lemma py_slice_step:
  "i < j \<Longrightarrow> j \<le> length xs \<Longrightarrow> py_slice xs i j = xs ! i # py_slice xs (i + 1) j"
  by (simp add: py_slice_def Cons_nth_drop_Suc [symmetric] take_Suc_conv_app_nth Suc_diff_Suc)
     (metis Cons_nth_drop_Suc Suc_diff_Suc less_le_trans take_Suc_Cons)

lemma py_slice_empty [simp]: "py_slice xs i i = []"
  by (simp add: py_slice_def)

lemma has_child_iff: "has_child t b \<longleftrightarrow> child t b \<noteq> None"
  by (simp add: has_child_def child_def map_of_eq_None_iff)

text \<open>
  What the inner loop returns: the longest stretch from \<open>mp\<close> that ends in a node with a
  token, with that token, or the match it started with when there is none.
\<close>

lemma walk_longest:
  "(walk n bs mp lm = lm \<and> (\<forall>e. mp < e \<and> e \<le> length bs \<longrightarrow> value_at n (py_slice bs mp e) < 0)) \<or>
   (\<exists>e. mp < e \<and> e \<le> length bs \<and> 0 \<le> value_at n (py_slice bs mp e) \<and>
        walk n bs mp lm = Some (value_at n (py_slice bs mp e), e) \<and>
        (\<forall>e'. e < e' \<and> e' \<le> length bs \<longrightarrow> value_at n (py_slice bs mp e') < 0))"
proof (induction n bs mp lm rule: walk.induct)
  case (1 n bs mp lm)
  show ?case
  proof (cases "mp < length bs \<and> has_child n (bs ! mp)")
    case False
    have "value_at n (py_slice bs mp e) < 0" if "mp < e" "e \<le> length bs" for e
    proof -
      from that False have "child n (bs ! mp) = None"
        by (simp add: has_child_iff)
      with that show ?thesis
        by (simp add: py_slice_step value_at_Cons)
    qed
    moreover have "walk n bs mp lm = lm"
      using False by (subst walk.simps) auto
    ultimately show ?thesis by blast
  next
    case True
    then obtain c where c: "child n (bs ! mp) = Some c"
      by (auto simp: has_child_iff)
    let ?lm = "if value_of c \<ge> 0 then Some (value_of c, mp + 1) else lm"
    have w: "walk n bs mp lm = walk c bs (mp + 1) ?lm"
      using True c by (simp add: walk.simps [of n bs mp lm])
    have va: "value_at n (py_slice bs mp e) = value_at c (py_slice bs (mp + 1) e)"
      if "mp < e" "e \<le> length bs" for e
      using that c by (simp add: py_slice_step value_at_Cons)
    have va1: "value_at n (py_slice bs mp (mp + 1)) = value_of c"
      using va [of "mp + 1"] True by simp
    from "1.IH" [OF True c] consider
        (none) "walk c bs (mp + 1) ?lm = ?lm"
               "\<forall>e. mp + 1 < e \<and> e \<le> length bs \<longrightarrow> value_at c (py_slice bs (mp + 1) e) < 0"
      | (some) e where "mp + 1 < e" "e \<le> length bs" "0 \<le> value_at c (py_slice bs (mp + 1) e)"
               "walk c bs (mp + 1) ?lm = Some (value_at c (py_slice bs (mp + 1) e), e)"
               "\<forall>e'. e < e' \<and> e' \<le> length bs \<longrightarrow> value_at c (py_slice bs (mp + 1) e') < 0"
      by blast
    then show ?thesis
    proof cases
      case some
      have "mp < e" using some(1) by simp
      moreover have "\<forall>e'. e < e' \<and> e' \<le> length bs \<longrightarrow> value_at n (py_slice bs mp e') < 0"
        using some(1,5) va by auto
      ultimately show ?thesis
        using some w va [of e] by auto
    next
      case none
      have later: "value_at n (py_slice bs mp e) < 0" if "mp + 1 < e" "e \<le> length bs" for e
        using that none(2) va [of e] by auto
      show ?thesis
      proof (cases "0 \<le> value_of c")
        case False
        have "value_at n (py_slice bs mp e) < 0" if "mp < e" "e \<le> length bs" for e
        proof (cases "e = mp + 1")
          case True
          with False va1 show ?thesis by simp
        next
          case False
          with that later show ?thesis by simp
        qed
        with False none(1) w show ?thesis by simp
      next
        case pos: True
        have "mp < mp + 1 \<and> mp + 1 \<le> length bs \<and> 0 \<le> value_at n (py_slice bs mp (mp + 1)) \<and>
              walk n bs mp lm = Some (value_at n (py_slice bs mp (mp + 1)), mp + 1) \<and>
              (\<forall>e'. mp + 1 < e' \<and> e' \<le> length bs \<longrightarrow> value_at n (py_slice bs mp e') < 0)"
          using pos none(1) w va1 True later by simp
        then show ?thesis by blast
      qed
    qed
  qed
qed

section \<open>The greedy scan in terms of the token table\<close>

lemma match_end_unique: "match_end toks bs p e \<Longrightarrow> match_end toks bs p e' \<Longrightarrow> e = e'"
  unfolding match_end_def by (meson linorder_neqE_nat)

lemma match_end_not_no_match: "match_end toks bs p e \<Longrightarrow> \<not> no_match toks bs p"
  unfolding match_end_def no_match_def by blast

lemma walk_tokens:
  "(walk (ByteTrie_init toks) bs p None = None \<and> no_match toks bs p) \<or>
   (\<exists>e. match_end toks bs p e \<and>
        walk (ByteTrie_init toks) bs p None = Some (first_index toks (py_slice bs p e), e))"
proof -
  have neg: "first_index toks q < 0 \<longleftrightarrow> q \<notin> set toks" for q
    using first_index_nonneg_iff [of toks q] by auto
  show ?thesis
    using walk_longest [of "ByteTrie_init toks" bs p None]
    unfolding match_end_def no_match_def value_at_ByteTrie_init neg first_index_nonneg_iff
    by blast
qed

lemma encode_loop_match:
  assumes "match_end toks bs p e"
  shows "encode_loop (ByteTrie_init toks) bs p acc =
           encode_loop (ByteTrie_init toks) bs e (acc @ [first_index toks (py_slice bs p e)])"
proof -
  from assms have lt: "p < length bs" by (auto simp: match_end_def)
  from walk_tokens [of toks bs p] assms
  have "walk (ByteTrie_init toks) bs p None = Some (first_index toks (py_slice bs p e), e)"
    using match_end_not_no_match match_end_unique by blast
  with lt show ?thesis
    by (subst encode_loop.simps) simp
qed

lemma encode_loop_no_match:
  assumes "p < length bs" and "no_match toks bs p"
  shows "encode_loop (ByteTrie_init toks) bs p acc = Inl (NoMatch p (bs ! p))"
proof -
  from walk_tokens [of toks bs p] assms(2)
  have "walk (ByteTrie_init toks) bs p None = None"
    using match_end_not_no_match by blast
  with assms(1) show ?thesis
    by (subst encode_loop.simps) simp
qed

lemma encode_loop_done:
  "\<not> p < length bs \<Longrightarrow> encode_loop trie bs p acc = Inr acc"
  by (subst encode_loop.simps) simp

lemma match_or_not:
  "no_match toks bs p \<or> (\<exists>e. match_end toks bs p e)"
  using walk_tokens [of toks bs p] by blast

lemma decode_ids_append:
  "decode_ids toks (xs @ ys) =
     (case decode_ids toks xs of
        Inl e \<Rightarrow> Inl e
      | Inr a \<Rightarrow> (case decode_ids toks ys of Inl e \<Rightarrow> Inl e | Inr b \<Rightarrow> Inr (a @ b)))"
  by (induction xs) (auto split: sum.splits)

lemma decode_first_index:
  "s \<in> set toks \<Longrightarrow> decode_ids toks [first_index toks s] = Inr s"
  using first_index_props [of s toks] by auto

lemma py_slice_drop:
  "p \<le> e \<Longrightarrow> py_slice bs p e @ drop e bs = drop p bs"
  unfolding py_slice_def
  by (metis append_take_drop_id drop_drop le_add_diff_inverse2)

text \<open>What \<^verbatim>\<open>encode\<close> returns decodes to the bytes it was given.\<close>

lemma encode_loop_decode:
  "encode_loop (ByteTrie_init toks) bs p acc = Inr ids \<Longrightarrow> p \<le> length bs \<Longrightarrow>
   decode_ids toks acc = Inr a \<Longrightarrow> decode_ids toks ids = Inr (a @ drop p bs)"
proof (induction p arbitrary: acc a rule: measure_induct_rule [where f = "\<lambda>p. length bs - p"])
  case (less p)
  show ?case
  proof (cases "p < length bs")
    case False
    with less.prems show ?thesis by (simp add: encode_loop_done)
  next
    case True
    from match_or_not [of toks bs p] show ?thesis
    proof
      assume "no_match toks bs p"
      with True less.prems(1) show ?thesis by (simp add: encode_loop_no_match)
    next
      assume "\<exists>e. match_end toks bs p e"
      then obtain e where e: "match_end toks bs p e" ..
      let ?s = "py_slice bs p e"
      from e have pe: "p < e" "e \<le> length bs" "?s \<in> set toks"
        by (auto simp: match_end_def)
      have enc: "encode_loop (ByteTrie_init toks) bs e (acc @ [first_index toks ?s]) = Inr ids"
        using less.prems(1) encode_loop_match [OF e] by simp
      have dec: "decode_ids toks (acc @ [first_index toks ?s]) = Inr (a @ ?s)"
        using less.prems(3) decode_first_index [OF pe(3)] by (simp add: decode_ids_append)
      have "length bs - e < length bs - p" using pe True by simp
      from less.IH [OF this enc pe(2) dec] show ?thesis
        using py_slice_drop [of p e bs] pe(1) by simp
    qed
  qed
qed

text \<open>\<^verbatim>\<open>encode\<close> succeeds when every byte from \<open>p\<close> on is itself a token.\<close>

lemma encode_loop_succeeds:
  "(\<And>i. p \<le> i \<Longrightarrow> i < length bs \<Longrightarrow> [bs ! i] \<in> set toks) \<Longrightarrow>
   \<exists>ids. encode_loop (ByteTrie_init toks) bs p acc = Inr ids"
proof (induction p arbitrary: acc rule: measure_induct_rule [where f = "\<lambda>p. length bs - p"])
  case (less p)
  show ?case
  proof (cases "p < length bs")
    case False
    then show ?thesis by (simp add: encode_loop_done)
  next
    case True
    have one: "py_slice bs p (p + 1) = [bs ! p]"
      using True by (simp add: py_slice_def take_Suc_conv_app_nth)
    have "\<not> no_match toks bs p"
      using True one less.prems [of p] unfolding no_match_def
      by (metis Suc_eq_plus1 Suc_leI le_refl lessI)
    with match_or_not [of toks bs p] obtain e where e: "match_end toks bs p e" by blast
    then have pe: "p < e" "e \<le> length bs" by (auto simp: match_end_def)
    have "length bs - e < length bs - p" using pe True by simp
    moreover have "\<And>i. e \<le> i \<Longrightarrow> i < length bs \<Longrightarrow> [bs ! i] \<in> set toks"
      using less.prems pe(1) by simp
    ultimately have "\<exists>ids. encode_loop (ByteTrie_init toks) bs e
                             (acc @ [first_index toks (py_slice bs p e)]) = Inr ids"
      by (rule less.IH)
    then show ?thesis by (simp add: encode_loop_match [OF e])
  qed
qed

lemma all_bytes_in_Mock_tokens: "[b] \<in> set Mock_tokens"
proof -
  have "unat b < 256" using unsigned_less [of b, where ?'a = nat] by simp
  then have "[b] \<in> set all_bytes"
    unfolding all_bytes_def by (auto simp: image_iff intro!: bexI [of _ "unat b"])
  then show ?thesis by (simp add: Mock_tokens_def)
qed

lemma encode_loop_error_iff:
  "encode_loop (ByteTrie_init toks) bs q acc = Inl err \<longleftrightarrow>
     (\<exists>p. (match_end toks bs)\<^sup>*\<^sup>* q p \<and> p < length bs \<and> no_match toks bs p \<and>
          err = NoMatch p (bs ! p))"
proof
  show "\<exists>p. (match_end toks bs)\<^sup>*\<^sup>* q p \<and> p < length bs \<and> no_match toks bs p \<and>
          err = NoMatch p (bs ! p)"
    if "encode_loop (ByteTrie_init toks) bs q acc = Inl err"
    using that
  proof (induction q arbitrary: acc rule: measure_induct_rule [where f = "\<lambda>p. length bs - p"])
    case (less q)
    show ?case
    proof (cases "q < length bs")
      case False
      with less.prems show ?thesis by (simp add: encode_loop_done)
    next
      case True
      from match_or_not [of toks bs q] show ?thesis
      proof
        assume nm: "no_match toks bs q"
        with True less.prems have "err = NoMatch q (bs ! q)"
          by (simp add: encode_loop_no_match)
        with nm True show ?thesis by blast
      next
        assume "\<exists>e. match_end toks bs q e"
        then obtain e where e: "match_end toks bs q e" ..
        then have qe: "q < e" "e \<le> length bs" by (auto simp: match_end_def)
        have "length bs - e < length bs - q" using qe True by simp
        moreover have "encode_loop (ByteTrie_init toks) bs e
                         (acc @ [first_index toks (py_slice bs q e)]) = Inl err"
          using less.prems encode_loop_match [OF e] by simp
        ultimately obtain p where
          p: "(match_end toks bs)\<^sup>*\<^sup>* e p" "p < length bs" "no_match toks bs p"
             "err = NoMatch p (bs ! p)"
          using less.IH by blast
        from e p(1) have "(match_end toks bs)\<^sup>*\<^sup>* q p"
          by (rule converse_rtranclp_into_rtranclp)
        with p(2-4) show ?thesis by blast
      qed
    qed
  qed
next
  assume "\<exists>p. (match_end toks bs)\<^sup>*\<^sup>* q p \<and> p < length bs \<and> no_match toks bs p \<and>
            err = NoMatch p (bs ! p)"
  then obtain p where p: "(match_end toks bs)\<^sup>*\<^sup>* q p" "p < length bs" "no_match toks bs p"
    and err: "err = NoMatch p (bs ! p)"
    by blast
  from p(1) have "\<forall>acc. encode_loop (ByteTrie_init toks) bs q acc = Inl (NoMatch p (bs ! p))"
  proof (induction rule: converse_rtranclp_induct)
    case base
    from p(2,3) show ?case by (simp add: encode_loop_no_match)
  next
    case (step y z)
    then show ?case by (simp add: encode_loop_match)
  qed
  with err show "encode_loop (ByteTrie_init toks) bs q acc = Inl err" by simp
qed

section \<open>Claims about the tokenizer and the trie\<close>

text \<open>
  C4. Round trip: when every byte of \<open>s\<close> is a token of the table, \<^verbatim>\<open>encode\<close> succeeds on
  \<open>s\<close> and the bytes of the ids it returns, concatenated, are \<open>s\<close>. In the table of
  \<^verbatim>\<open>Mock\<close> every byte is a token (\<open>all_bytes_in_Mock_tokens\<close>), so this holds there for
  every byte string.
\<close>

theorem encode_decode_roundtrip:
  assumes "\<forall>b \<in> set s. [b] \<in> set toks"
  shows "\<exists>ids. encode (MockTokenizer_init toks) s True = Inr ids \<and>
               decode (MockTokenizer_init toks) ids = Inr s"
proof -
  have "\<And>i. 0 \<le> i \<Longrightarrow> i < length s \<Longrightarrow> [s ! i] \<in> set toks"
    using assms by simp
  then obtain ids where ids: "encode_loop (ByteTrie_init toks) s 0 [] = Inr ids"
    using encode_loop_succeeds [of 0 s toks "[]"] by blast
  from encode_loop_decode [OF ids, of "[]"] have "decode_ids toks ids = Inr s" by simp
  with ids show ?thesis
    by (simp add: encode_def decode_def MockTokenizer_init_def)
qed

theorem encode_decode_roundtrip_witness:
  "\<exists>ids. encode (MockTokenizer_init Mock_tokens) [0x63, 0x61, 0x74] True = Inr ids \<and>
         decode (MockTokenizer_init Mock_tokens) ids = Inr [0x63, 0x61, 0x74]"
  using encode_decode_roundtrip [of "[0x63, 0x61, 0x74]" Mock_tokens]
  by (simp add: all_bytes_in_Mock_tokens)

text \<open>
  C5. Greedy longest match: from a position \<open>p\<close> whose longest token ends at \<open>e\<close> the scan
  emits the first id of that token and goes on at \<open>e\<close>. In particular, in any table that
  has the token \<^verbatim>\<open>ab\<close>, the bytes \<^verbatim>\<open>ab\<close> are encoded as the one id of \<^verbatim>\<open>ab\<close>, whether
  or not \<^verbatim>\<open>a\<close> and \<^verbatim>\<open>b\<close> are tokens too.
\<close>

theorem encode_greedy_longest_match:
  "(match_end toks bs p e \<longrightarrow>
      encode_loop (ByteTrie_init toks) bs p acc =
        encode_loop (ByteTrie_init toks) bs e (acc @ [first_index toks (py_slice bs p e)])) \<and>
   ([0x61, 0x62] \<in> set toks \<longrightarrow>
      encode (MockTokenizer_init toks) [0x61, 0x62] True = Inr [first_index toks [0x61, 0x62]])"
proof (intro conjI impI)
  assume "match_end toks bs p e"
  then show "encode_loop (ByteTrie_init toks) bs p acc =
        encode_loop (ByteTrie_init toks) bs e (acc @ [first_index toks (py_slice bs p e)])"
    by (rule encode_loop_match)
next
  let ?ab = "[0x61, 0x62] :: bytes"
  assume "?ab \<in> set toks"
  then have "match_end toks ?ab 0 2"
    by (simp add: match_end_def py_slice_def)
  from encode_loop_match [OF this, of "[]"]
  show "encode (MockTokenizer_init toks) ?ab True = Inr [first_index toks ?ab]"
    by (simp add: encode_def MockTokenizer_init_def encode_loop_done py_slice_def)
qed

theorem encode_greedy_longest_match_witness:
  "encode_loop (ByteTrie_init ([[0x3C, 0x73, 0x3E], [0x61], [0x61, 0x62]] @ all_bytes))
     [0x61, 0x62] 0 [] =
   encode_loop (ByteTrie_init ([[0x3C, 0x73, 0x3E], [0x61], [0x61, 0x62]] @ all_bytes))
     [0x61, 0x62] 2 [2] \<and>
   encode (MockTokenizer_init ([[0x3C, 0x73, 0x3E], [0x61], [0x61, 0x62]] @ all_bytes))
     [0x61, 0x62] True = Inr [2]"
proof -
  let ?toks = "[[0x3C, 0x73, 0x3E], [0x61], [0x61, 0x62]] @ all_bytes"
  have m: "match_end ?toks [0x61, 0x62] 0 2"
    by (simp add: match_end_def py_slice_def)
  have i: "first_index ?toks [0x61, 0x62] = 2"
    by (simp add: first_index_def)
  show ?thesis
    using encode_greedy_longest_match [of ?toks "[0x61, 0x62]" 0 2 "[]"] m i
    by (simp add: py_slice_def)
qed

text \<open>
  C7. First insert wins. \<^verbatim>\<open>insert\<close> changes the value of one node only, the node of
  the inserted byte string, and only if that node has no value (the test is \<open>value < 0\<close>;
  with token ids, which are not negative, a node without a value holds the sentinel
  \<open>-1\<close>). Inserting the same byte string again after a non-negative value changes
  nothing in the trie, and a node that holds a value keeps it through every insertion.
  In the trie of a token table the value at a byte string is its first index.
\<close>

theorem insert_first_wins:
  "value_at (insert_trie t s v 0) p = (if p = s \<and> value_at t p < 0 then v else value_at t p) \<and>
   (0 \<le> v1 \<longrightarrow> insert_trie (insert_trie t s v1 0) s v2 0 = insert_trie t s v1 0) \<and>
   (0 \<le> value_at t p \<longrightarrow> value_at (insert_trie t s v 0) p = value_at t p) \<and>
   value_at (ByteTrie_init toks) p = first_index toks p"
  by (simp add: value_at_insert_trie insert_trie_twice value_at_ByteTrie_init)

theorem insert_first_wins_witness:
  "insert_trie (insert_trie new_node [0x61] 1 0) [0x61] 2 0 = insert_trie new_node [0x61] 1 0 \<and>
   value_at (insert_trie (insert_trie new_node [0x61] 1 0) [0x61] 2 0) [0x61] = 1 \<and>
   value_at (ByteTrie_init [[0x61], [0x62], [0x61]]) [0x61] = 0"
  using insert_first_wins [of new_node "[0x61]" 1 "[0x61]" 1 2 "[[0x61], [0x62], [0x61]]"]
        insert_first_wins [of "insert_trie new_node [0x61] 1 0" "[0x61]" 2 "[0x61]" 1 2 "[]"]
  by (simp add: first_index_def)

text \<open>
  C8. The errors of \<^verbatim>\<open>encode\<close>. With \<^verbatim>\<open>parse_special=False\<close> it fails with
  \<^verbatim>\<open>UnsupportedOption\<close> whatever the input. Otherwise it fails exactly when the scan
  reaches a position of the input where no token starts, and the error names that
  position and the byte there; in every other case it returns ids.
\<close>

theorem encode_error_contract:
  "encode tk bs False = Inl UnsupportedOption \<and>
   (encode (MockTokenizer_init toks) bs True = Inl err \<longleftrightarrow>
      (\<exists>p. scan_reaches toks bs p \<and> p < length bs \<and> no_match toks bs p \<and>
           err = NoMatch p (bs ! p))) \<and>
   ((\<exists>ids. encode (MockTokenizer_init toks) bs True = Inr ids) \<longleftrightarrow>
      \<not> (\<exists>p. scan_reaches toks bs p \<and> p < length bs \<and> no_match toks bs p))"
proof -
  let ?enc = "encode (MockTokenizer_init toks) bs True"
  have e: "?enc = encode_loop (ByteTrie_init toks) bs 0 []"
    by (simp add: encode_def MockTokenizer_init_def)
  have err: "?enc = Inl err \<longleftrightarrow>
      (\<exists>p. scan_reaches toks bs p \<and> p < length bs \<and> no_match toks bs p \<and>
           err = NoMatch p (bs ! p))" for err
    unfolding e scan_reaches_def by (rule encode_loop_error_iff)
  have "(\<exists>ids. ?enc = Inr ids) \<longleftrightarrow> \<not> (\<exists>err. ?enc = Inl err)"
    by (cases ?enc) simp_all
  also have "\<dots> \<longleftrightarrow> \<not> (\<exists>p. scan_reaches toks bs p \<and> p < length bs \<and> no_match toks bs p)"
    unfolding err by blast
  finally show ?thesis
    using err by (simp add: encode_def)
qed

theorem encode_error_contract_witness:
  "encode (MockTokenizer_init [[0x61], [0x61, 0x62]]) [0x61, 0x62, 0x63] False =
     Inl UnsupportedOption \<and>
   encode (MockTokenizer_init [[0x61], [0x61, 0x62]]) [0x61, 0x62, 0x63] True =
     Inl (NoMatch 2 0x63)"
proof -
  let ?toks = "[[0x61], [0x61, 0x62]] :: bytes list"
  let ?bs = "[0x61, 0x62, 0x63] :: bytes"
  have "match_end ?toks ?bs 0 2"
    by (auto simp: match_end_def py_slice_def le_Suc_eq numeral_3_eq_3 numeral_2_eq_2)
  then have r: "scan_reaches ?toks ?bs 2"
    by (auto simp: scan_reaches_def)
  have n: "no_match ?toks ?bs 2"
    by (auto simp: no_match_def py_slice_def le_Suc_eq numeral_3_eq_3 numeral_2_eq_2)
  show ?thesis
    using encode_error_contract [of "MockTokenizer_init ?toks" ?bs ?toks "NoMatch 2 0x63"] r n
    by auto
qed

section \<open>Aggregation over the trie\<close>

lemma compute_probs_sound:
  "(\<forall>t'. compute_probs fadd t probs = Some t' \<longrightarrow>
      ByteTrie.prob t' = accumulated fadd (probs_at probs) t \<and>
      accumulated fadd (probs_at probs) t' = accumulated fadd (probs_at probs) t \<and>
      clear_probs t' = clear_probs t \<and>
      compute_probs fadd t' probs = Some t' \<and>
      (\<forall>n \<in> set (subtries t'). ByteTrie.prob n = accumulated fadd (probs_at probs) n))"
  "(\<forall>cs' r. compute_children fadd cs probs acc = Some (cs', r) \<longrightarrow>
      r = foldl fadd acc (map (\<lambda>kc. ByteTrie.prob (snd kc)) cs') \<and>
      map (\<lambda>kc. ByteTrie.prob (snd kc)) cs' =
        map (\<lambda>kc. accumulated fadd (probs_at probs) (snd kc)) cs \<and>
      map (\<lambda>kc. accumulated fadd (probs_at probs) (snd kc)) cs' =
        map (\<lambda>kc. accumulated fadd (probs_at probs) (snd kc)) cs \<and>
      map (\<lambda>kc. (fst kc, clear_probs (snd kc))) cs' =
        map (\<lambda>kc. (fst kc, clear_probs (snd kc))) cs \<and>
      (\<forall>a. compute_children fadd cs' probs a =
             Some (cs', foldl fadd a (map (\<lambda>kc. ByteTrie.prob (snd kc)) cs'))) \<and>
      (\<forall>kc \<in> set cs'. \<forall>n \<in> set (subtries (snd kc)).
          ByteTrie.prob n = accumulated fadd (probs_at probs) n))"
proof (induction fadd t probs and fadd cs probs acc rule: compute_probs_compute_children.induct)
  case (1 fadd p v cs probs)
  show ?case
  proof (intro allI impI)
    fix t'
    assume a: "compute_probs fadd (ByteTrie p v cs) probs = Some t'"
    then obtain own where
      own: "(if v \<noteq> - 1 then map_option (fadd 0) (py_get probs v) else Some 0) = Some own"
      by (auto split: option.splits)
    with a obtain cs' r where cc: "compute_children fadd cs probs own = Some (cs', r)"
      and t': "t' = ByteTrie r v cs'"
      by (auto split: option.splits)
    have ownf: "own = (if v \<noteq> - 1 then fadd 0 (probs_at probs v) else 0)"
      using own by (auto simp: probs_at_def split: if_splits)
    note ih = "1.IH" [OF own, rule_format, OF cc]
    show "ByteTrie.prob t' = accumulated fadd (probs_at probs) (ByteTrie p v cs) \<and>
      accumulated fadd (probs_at probs) t' = accumulated fadd (probs_at probs) (ByteTrie p v cs) \<and>
      clear_probs t' = clear_probs (ByteTrie p v cs) \<and>
      compute_probs fadd t' probs = Some t' \<and>
      (\<forall>n \<in> set (subtries t'). ByteTrie.prob n = accumulated fadd (probs_at probs) n)"
      using ih own unfolding t' by (auto simp: ownf)
  qed
next
  case (2 fadd probs acc)
  show ?case by simp
next
  case (3 fadd kc cs probs acc)
  show ?case
  proof (intro allI impI)
    fix cs' r
    assume a: "compute_children fadd (kc # cs) probs acc = Some (cs', r)"
    then obtain c' where c': "compute_probs fadd (snd kc) probs = Some c'"
      by (auto split: option.splits)
    with a obtain cs'' where
      cc: "compute_children fadd cs probs (fadd acc (ByteTrie.prob c')) = Some (cs'', r)"
      and cs': "cs' = (fst kc, c') # cs''"
      by (auto split: option.splits)
    note ih1 = "3.IH"(1) [rule_format, OF c']
    note ih2 = "3.IH"(2) [OF c', rule_format, OF cc]
    show "r = foldl fadd acc (map (\<lambda>kc. ByteTrie.prob (snd kc)) cs') \<and>
      map (\<lambda>kc. ByteTrie.prob (snd kc)) cs' =
        map (\<lambda>kc. accumulated fadd (probs_at probs) (snd kc)) (kc # cs) \<and>
      map (\<lambda>kc. accumulated fadd (probs_at probs) (snd kc)) cs' =
        map (\<lambda>kc. accumulated fadd (probs_at probs) (snd kc)) (kc # cs) \<and>
      map (\<lambda>kc. (fst kc, clear_probs (snd kc))) cs' =
        map (\<lambda>kc. (fst kc, clear_probs (snd kc))) (kc # cs) \<and>
      (\<forall>a. compute_children fadd cs' probs a =
             Some (cs', foldl fadd a (map (\<lambda>kc. ByteTrie.prob (snd kc)) cs'))) \<and>
      (\<forall>kc \<in> set cs'. \<forall>n \<in> set (subtries (snd kc)).
          ByteTrie.prob n = accumulated fadd (probs_at probs) n)"
      using ih1 ih2 unfolding cs' by auto
  qed
qed

lemma compute_probs_succeeds:
  "values_below (length probs) t \<longrightarrow> (\<exists>t'. compute_probs fadd t probs = Some t')"
  "list_all (\<lambda>kc. values_below (length probs) (snd kc)) cs \<longrightarrow>
     (\<exists>r. compute_children fadd cs probs acc = Some r)"
proof (induction fadd t probs and fadd cs probs acc rule: compute_probs_compute_children.induct)
  case (1 fadd p v cs probs)
  show ?case
  proof
    assume vb: "values_below (length probs) (ByteTrie p v cs)"
    then obtain own where
      own: "(if v \<noteq> - 1 then map_option (fadd 0) (py_get probs v) else Some 0) = Some own"
      by (auto simp: py_get_def)
    from vb "1.IH" [OF own] obtain r where "compute_children fadd cs probs own = Some r"
      by auto
    with own show "\<exists>t'. compute_probs fadd (ByteTrie p v cs) probs = Some t'"
      by simp
  qed
next
  case (2 fadd probs acc)
  show ?case by simp
next
  case (3 fadd kc cs probs acc)
  show ?case
  proof
    assume vb: "list_all (\<lambda>kc. values_below (length probs) (snd kc)) (kc # cs)"
    with "3.IH"(1) obtain c' where c': "compute_probs fadd (snd kc) probs = Some c'"
      by auto
    from vb "3.IH"(2) [OF c'] obtain r where
      "compute_children fadd cs probs (fadd acc (ByteTrie.prob c')) = Some r"
      by auto
    with c' show "\<exists>r. compute_children fadd (kc # cs) probs acc = Some r"
      by simp
  qed
qed

lemma foldl_plus: "foldl (+) a xs = a + (sum_list xs :: real)"
  by (induction xs arbitrary: a) simp_all

lemma accumulated_plus: "accumulated (+) f t = terminal_sum f t"
proof (induction f t rule: terminal_sum.induct)
  case (1 f p v cs)
  then have eq: "map (\<lambda>kc. accumulated (+) f (snd kc)) cs =
                   map (\<lambda>kc. terminal_sum f (snd kc)) cs"
    by simp
  show ?case
    unfolding accumulated.simps terminal_sum.simps eq foldl_plus by simp
qed

lemma keys_map_upd:
  "map fst (map (\<lambda>kc. if fst kc = k then (fst kc, g (snd kc)) else kc) cs) = map fst cs"
  by (induction cs) auto

lemma list_all_map_upd:
  "list_all (\<lambda>kc. P (snd kc)) cs \<Longrightarrow>
   (\<And>kc. kc \<in> set cs \<Longrightarrow> fst kc = k \<Longrightarrow> P (g (snd kc))) \<Longrightarrow>
   list_all (\<lambda>kc. P (snd kc)) (map (\<lambda>kc. if fst kc = k then (fst kc, g (snd kc)) else kc) cs)"
  by (induction cs) auto

lemma distinct_keys_new_node [simp]: "distinct_keys new_node"
  by (simp add: new_node_def)

lemma values_below_new_node [simp]: "values_below n new_node"
  by (simp add: new_node_def)

lemma distinct_keys_insert_trie:
  "distinct_keys t \<Longrightarrow> distinct_keys (insert_trie t s v pos)"
proof (induction t s v pos rule: insert_trie.induct)
  case (1 p w cs s val pos)
  show ?case
  proof (cases "length s \<le> pos")
    case True
    with "1.prems" show ?thesis by simp
  next
    case False
    let ?cs' = "if s ! pos \<in> fst ` set cs then cs else cs @ [(s ! pos, new_node)]"
    have d: "distinct (map fst ?cs')" and a: "list_all (\<lambda>kc. distinct_keys (snd kc)) ?cs'"
      using "1.prems" by auto
    have "distinct_keys (insert_trie (snd kc) s val (pos + 1))"
      if "kc \<in> set ?cs'" "fst kc = s ! pos" for kc
    proof -
      from a that(1) have "distinct_keys (snd kc)" unfolding list_all_iff by blast
      with "1.IH" [OF False that] show ?thesis .
    qed
    with a have "list_all (\<lambda>kc. distinct_keys (snd kc))
                 (map (\<lambda>kc. if fst kc = s ! pos
                            then (fst kc, insert_trie (snd kc) s val (pos + 1)) else kc) ?cs')"
      by (rule list_all_map_upd [where g = "\<lambda>c. insert_trie c s val (pos + 1)"])
    moreover have "distinct (map fst (map (\<lambda>kc. if fst kc = s ! pos
                            then (fst kc, insert_trie (snd kc) s val (pos + 1)) else kc) ?cs'))"
      using d by (simp only: keys_map_upd [where g = "\<lambda>c. insert_trie c s val (pos + 1)"])
    moreover have "insert_trie (ByteTrie p w cs) s val pos =
                     ByteTrie p w (map (\<lambda>kc. if fst kc = s ! pos
                            then (fst kc, insert_trie (snd kc) s val (pos + 1)) else kc) ?cs')"
      using False by simp
    ultimately show ?thesis
      by (simp only: distinct_keys.simps)
  qed
qed

lemma values_below_insert_trie:
  "values_below n t \<Longrightarrow> v = - 1 \<or> (0 \<le> v \<and> v < int n) \<Longrightarrow>
   values_below n (insert_trie t s v pos)"
proof (induction t s v pos rule: insert_trie.induct)
  case (1 p w cs s val pos)
  show ?case
  proof (cases "length s \<le> pos")
    case True
    with "1.prems" show ?thesis by auto
  next
    case False
    let ?cs' = "if s ! pos \<in> fst ` set cs then cs else cs @ [(s ! pos, new_node)]"
    have a: "list_all (\<lambda>kc. values_below n (snd kc)) ?cs'"
      using "1.prems" by auto
    have "values_below n (insert_trie (snd kc) s val (pos + 1))"
      if "kc \<in> set ?cs'" "fst kc = s ! pos" for kc
    proof -
      from a that(1) have "values_below n (snd kc)" unfolding list_all_iff by blast
      with "1.IH" [OF False that _ "1.prems"(2)] show ?thesis .
    qed
    with a have "list_all (\<lambda>kc. values_below n (snd kc))
                 (map (\<lambda>kc. if fst kc = s ! pos
                            then (fst kc, insert_trie (snd kc) s val (pos + 1)) else kc) ?cs')"
      by (rule list_all_map_upd [where g = "\<lambda>c. insert_trie c s val (pos + 1)"])
    with False "1.prems" show ?thesis by simp
  qed
qed

lemma sum_map_no_key:
  "k \<notin> fst ` set cs \<Longrightarrow>
   map (\<lambda>kc. if fst kc = k then (fst kc, g (snd kc)) else kc) cs = cs"
  by (rule map_idI) auto

lemma sum_map_upd:
  "distinct (map fst cs) \<Longrightarrow> map_of cs k = Some c \<Longrightarrow>
   sum_list (map (\<lambda>kc. h (snd kc))
      (map (\<lambda>kc. if fst kc = k then (fst kc, g (snd kc)) else kc) cs)) =
   sum_list (map (\<lambda>kc. h (snd kc)) cs) - h c + (h (g c) :: real)"
proof (induction cs)
  case Nil
  then show ?case by simp
next
  case (Cons x cs)
  show ?case
  proof (cases "fst x = k")
    case True
    with Cons.prems have "k \<notin> fst ` set cs" by auto
    then have "map (\<lambda>kc. if fst kc = k then (fst kc, g (snd kc)) else kc) cs = cs"
      by (rule sum_map_no_key)
    with True Cons.prems show ?thesis by simp
  next
    case False
    with Cons show ?thesis by simp
  qed
qed

lemma terminal_sum_new_node [simp]: "terminal_sum f new_node = 0"
  by (simp add: new_node_def)

lemma terminal_sum_insert_trie:
  "distinct_keys t \<Longrightarrow> pos \<le> length s \<Longrightarrow> value_at t (drop pos s) = - 1 \<Longrightarrow> v \<noteq> - 1 \<Longrightarrow>
   terminal_sum f (insert_trie t s v pos) = terminal_sum f t + f v"
proof (induction t s v pos rule: insert_trie.induct)
  case (1 p w cs s val pos)
  show ?case
  proof (cases "length s \<le> pos")
    case True
    with "1.prems" show ?thesis by simp
  next
    case False
    then have lt: "pos < length s" by simp
    have dr: "drop pos s = s ! pos # drop (pos + 1) s"
      using lt by (simp add: Cons_nth_drop_Suc)
    let ?b = "s ! pos"
    let ?g = "\<lambda>c. insert_trie c s val (pos + 1)"
    let ?F = "\<lambda>kc. if fst kc = ?b then (fst kc, ?g (snd kc)) else kc"
    let ?h = "terminal_sum f"
    have d: "distinct (map fst cs)" and a: "list_all (\<lambda>kc. distinct_keys (snd kc)) cs"
      using "1.prems"(1) by auto
    show ?thesis
    proof (cases "?b \<in> fst ` set cs")
      case True
      then obtain c where c: "map_of cs ?b = Some c"
        by (metis map_of_eq_None_iff not_Some_eq)
      then have mem: "(?b, c) \<in> set cs" by (rule map_of_SomeD)
      have dc: "distinct_keys c" using a mem by (auto simp: list_all_iff)
      have vc: "value_at c (drop (pos + 1) s) = - 1"
        using "1.prems"(3) c by (simp add: dr value_at_Cons child_def)
      have "?h (?g c) = ?h c + f val"
        using "1.IH" [OF False, of "(?b, c)"] True mem dc vc lt "1.prems"(4) by simp
      then have "sum_list (map (\<lambda>kc. ?h (snd kc)) (map ?F cs)) =
                   sum_list (map (\<lambda>kc. ?h (snd kc)) cs) + f val"
        using sum_map_upd [OF d c, of ?h ?g] by simp
      with True False show ?thesis by simp
    next
      case nokey: False
      have "?h (?g new_node) = ?h new_node + f val"
        using "1.IH" [OF False, of "(?b, new_node)"] nokey lt "1.prems"(4) by simp
      then have "sum_list (map (\<lambda>kc. ?h (snd kc)) (map ?F (cs @ [(?b, new_node)]))) =
                   sum_list (map (\<lambda>kc. ?h (snd kc)) cs) + f val"
        using sum_map_no_key [OF nokey, of ?g] by simp
      with nokey False show ?thesis by simp
    qed
  qed
qed

lemma values_below_insert_all:
  "values_below n t \<Longrightarrow> (\<And>s v. (s, v) \<in> set svs \<Longrightarrow> 0 \<le> v \<and> v < int n) \<Longrightarrow>
   values_below n (insert_all svs t)"
proof (induction svs arbitrary: t)
  case Nil
  then show ?case by simp
next
  case (Cons sv svs)
  obtain s v where sv: "sv = (s, v)" by (cases sv)
  have "values_below n (insert_trie t s v 0)"
    using Cons.prems(1) Cons.prems(2) [of s v] sv by (simp add: values_below_insert_trie)
  moreover have "\<And>s v. (s, v) \<in> set svs \<Longrightarrow> 0 \<le> v \<and> v < int n"
    using Cons.prems(2) by auto
  ultimately show ?case using sv Cons.IH by simp
qed

lemma values_below_ByteTrie_init: "values_below (length toks) (ByteTrie_init toks)"
  unfolding ByteTrie_init_def
  by (rule values_below_insert_all) (auto simp: set_zip)

lemma distinct_map_of_unique:
  "distinct (map fst cs) \<Longrightarrow> map_of cs k = Some c \<Longrightarrow> kc \<in> set cs \<Longrightarrow> fst kc = k \<Longrightarrow>
   snd kc = c"
  by (metis map_of_is_SomeI option.inject prod.collapse)

lemma insert_trie_noop:
  "distinct_keys t \<Longrightarrow> pos \<le> length s \<Longrightarrow> 0 \<le> value_at t (drop pos s) \<Longrightarrow>
   insert_trie t s v pos = t"
proof (induction t s v pos rule: insert_trie.induct)
  case (1 p w cs s val pos)
  show ?case
  proof (cases "length s \<le> pos")
    case True
    with "1.prems" show ?thesis by simp
  next
    case False
    then have lt: "pos < length s" by simp
    have dr: "drop pos s = s ! pos # drop (pos + 1) s"
      using lt by (simp add: Cons_nth_drop_Suc)
    let ?b = "s ! pos"
    have d: "distinct (map fst cs)" and a: "list_all (\<lambda>kc. distinct_keys (snd kc)) cs"
      using "1.prems"(1) by auto
    from "1.prems"(3) obtain c where c: "map_of cs ?b = Some c"
      and vc: "0 \<le> value_at c (drop (pos + 1) s)"
      by (auto simp: dr value_at_Cons child_def split: option.splits)
    then have key: "?b \<in> fst ` set cs"
      by (metis map_of_eq_None_iff option.distinct(1))
    have "(if fst kc = ?b then (fst kc, insert_trie (snd kc) s val (pos + 1)) else kc) = kc"
      if m: "kc \<in> set cs" for kc
    proof (cases "fst kc = ?b")
      case False
      then show ?thesis by simp
    next
      case True
      from distinct_map_of_unique [OF d c m True] have sc: "snd kc = c" .
      have "distinct_keys c" using a m sc by (auto simp: list_all_iff)
      with "1.IH" [OF \<open>\<not> length s \<le> pos\<close>, of kc] key m True sc vc lt
      have "insert_trie (snd kc) s val (pos + 1) = snd kc" by simp
      with True show ?thesis by (cases kc) simp
    qed
    then have "map (\<lambda>kc. if fst kc = ?b
                 then (fst kc, insert_trie (snd kc) s val (pos + 1)) else kc) cs = cs"
      by (simp add: map_idI)
    with False key show ?thesis by simp
  qed
qed

lemma insert_all_append: "insert_all (xs @ ys) t = insert_all ys (insert_all xs t)"
  by (induction xs arbitrary: t) auto

lemma ByteTrie_init_snoc:
  "ByteTrie_init (toks @ [s]) = insert_trie (ByteTrie_init toks) s (int (length toks)) 0"
  by (simp add: ByteTrie_init_def insert_all_append)

lemma distinct_keys_insert_all: "distinct_keys t \<Longrightarrow> distinct_keys (insert_all svs t)"
  by (induction svs arbitrary: t) (auto simp: distinct_keys_insert_trie)

lemma distinct_keys_ByteTrie_init: "distinct_keys (ByteTrie_init toks)"
  by (simp add: ByteTrie_init_def distinct_keys_insert_all)

lemma first_ids_snoc:
  "first_ids (xs @ [x]) = first_ids xs @ (if x \<in> set xs then [] else [length xs])"
proof -
  have "filter (\<lambda>i. (xs @ [x]) ! i \<notin> set (take i (xs @ [x]))) [0..<length xs] =
          filter (\<lambda>i. xs ! i \<notin> set (take i xs)) [0..<length xs]"
    by (rule filter_cong) (auto simp: nth_append)
  then show ?thesis by (simp add: first_ids_def)
qed

lemma first_ids_distinct: "distinct xs \<Longrightarrow> first_ids xs = [0..<length xs]"
proof (induction xs rule: rev_induct)
  case Nil
  then show ?case by (simp add: first_ids_def)
next
  case (snoc x xs)
  then show ?case by (simp add: first_ids_snoc)
qed

text \<open>The tokens of the trie of a table are the first ids of its entries, each once.\<close>

lemma terminal_sum_ByteTrie_init_first_ids:
  "terminal_sum f (ByteTrie_init toks) = sum_list (map (\<lambda>i. f (int i)) (first_ids toks))"
proof (induction toks rule: rev_induct)
  case Nil
  then show ?case by (simp add: ByteTrie_init_def first_ids_def)
next
  case (snoc s toks)
  let ?t = "ByteTrie_init toks"
  have va: "value_at ?t s = first_index toks s" by (rule value_at_ByteTrie_init)
  show ?case
  proof (cases "s \<in> set toks")
    case True
    then have "0 \<le> value_at ?t (drop 0 s)"
      using va first_index_nonneg_iff [of toks s] by simp
    with insert_trie_noop [OF distinct_keys_ByteTrie_init, of 0 s toks "int (length toks)"]
    have "ByteTrie_init (toks @ [s]) = ?t"
      by (simp add: ByteTrie_init_snoc)
    with True snoc show ?thesis by (simp add: first_ids_snoc)
  next
    case False
    then have "value_at ?t (drop 0 s) = - 1"
      using va by (simp add: first_index_absent)
    with terminal_sum_insert_trie [OF distinct_keys_ByteTrie_init, of 0 s toks
           "int (length toks)" f]
    have "terminal_sum f (ByteTrie_init (toks @ [s])) =
            terminal_sum f ?t + f (int (length toks))"
      by (simp add: ByteTrie_init_snoc)
    with False snoc show ?thesis by (simp add: first_ids_snoc)
  qed
qed

lemma round_double_eval:
  assumes "2 powr of_int e \<le> \<bar>x\<bar>" and "\<bar>x\<bar> < 2 powr (of_int e + 1)"
  shows "round_double x = of_int (rne (x / 2 powr (of_int e - 52))) * 2 powr (of_int e - 52)"
proof -
  have "0 < 2 powr (of_int e :: real)" by simp
  with assms(1) have pos: "0 < \<bar>x\<bar>" by linarith
  then have "\<lfloor>log 2 \<bar>x\<bar>\<rfloor> = e"
    using assms by (simp add: floor_log_eq_powr_iff)
  with pos show ?thesis by (simp add: round_double_def)
qed

lemma dadd_examples:
  "dadd 0 (1 / 2) = 1 / 2"
  "dadd 0 (1 / 2 ^ 54) = 1 / 2 ^ 54"
  "dadd 0 (1 / 2 - 1 / 2 ^ 53) = 1 / 2 - 1 / 2 ^ 53"
  "dadd (1 / 2) (1 / 2 ^ 54) = 1 / 2"
  "dadd (1 / 2) (1 / 2 - 1 / 2 ^ 53) = 1 - 1 / 2 ^ 53"
  "dadd 0 (1 / 4) = 1 / 4"
  "dadd 0 (3 / 4) = 3 / 4"
  "dadd (1 / 4) (3 / 4) = 1"
  "dadd 0 1 = 1"
  unfolding dadd_def
  using round_double_eval [of "- 1" "0 + 1 / 2"]
        round_double_eval [of "- 54" "0 + 1 / 2 ^ 54"]
        round_double_eval [of "- 2" "0 + (1 / 2 - 1 / 2 ^ 53)"]
        round_double_eval [of "- 1" "1 / 2 + 1 / 2 ^ 54"]
        round_double_eval [of "- 1" "1 / 2 + (1 / 2 - 1 / 2 ^ 53)"]
        round_double_eval [of "- 2" "0 + 1 / 4"]
        round_double_eval [of "- 1" "0 + 3 / 4"]
        round_double_eval [of 0 "1 / 4 + 3 / 4"]
  by (simp_all add: powr_minus rne_def)

lemma compute_probs_a_a:
  "compute_probs fadd (ByteTrie_init [[0x61], [0x61]]) [p0, p1] =
     Some (ByteTrie (fadd 0 (fadd 0 p0)) (- 1) [(0x61, ByteTrie (fadd 0 p0) 0 [])])"
  by (simp add: ByteTrie_init_def new_node_def upt_rec py_get_def)

lemma dadd_examples2:
  "dadd (1 / 2 ^ 54) (1 / 2 ^ 54) = 1 / 2 ^ 53"
  "dadd (1 / 2 ^ 53) (1 / 2) = 1 / 2 + 1 / 2 ^ 53"
  "dadd (1 / 2 + 1 / 2 ^ 53) (1 / 2 - 1 / 2 ^ 53) = 1"
  unfolding dadd_def
  using round_double_eval [of "- 53" "1 / 2 ^ 54 + 1 / 2 ^ 54"]
        round_double_eval [of "- 1" "1 / 2 ^ 53 + 1 / 2"]
        round_double_eval [of 0 "1 / 2 + 1 / 2 ^ 53 + (1 / 2 - 1 / 2 ^ 53)"]
  by (simp_all add: powr_minus rne_def)

lemma compute_probs_ab_ac_a_b:
  "compute_probs fadd (ByteTrie_init [[0x61, 0x62], [0x61, 0x63], [0x61], [0x62]])
     [p0, p1, p2, p3] =
     Some (ByteTrie (fadd (fadd 0 (fadd (fadd (fadd 0 p2) (fadd 0 p0)) (fadd 0 p1))) (fadd 0 p3))
             (- 1)
             [(0x61, ByteTrie (fadd (fadd (fadd 0 p2) (fadd 0 p0)) (fadd 0 p1)) 2
                       [(0x62, ByteTrie (fadd 0 p0) 0 []), (0x63, ByteTrie (fadd 0 p1) 1 [])]),
              (0x62, ByteTrie (fadd 0 p3) 3 [])])"
  by (simp add: ByteTrie_init_def new_node_def upt_rec py_get_def)

lemma compute_probs_a_ab:
  "compute_probs fadd (ByteTrie_init [[0x61], [0x61, 0x62]]) [p0, p1] =
     Some (ByteTrie (fadd 0 (fadd (fadd 0 p0) (fadd 0 p1))) (- 1)
             [(0x61, ByteTrie (fadd (fadd 0 p0) (fadd 0 p1)) 0
                       [(0x62, ByteTrie (fadd 0 p1) 1 [])])])"
  by (simp add: ByteTrie_init_def new_node_def upt_rec py_get_def)

text \<open>
  C6. Aggregation, as the code has it. After \<^verbatim>\<open>compute_probs(probs)\<close> the field \<^verbatim>\<open>prob\<close>
  of every node is the sum of \<open>probs[value]\<close> over the nodes of its subtree that carry a
  token, itself included, accumulated as the code adds: from \<open>0\<close>, the node's own
  probability first, then the \<^verbatim>\<open>prob\<close> of each child in dictionary order, each step one
  addition of the floats. The nodes, keys and values are as before, and running
  \<^verbatim>\<open>compute_probs\<close> again on the result gives the same trie. It returns for every trie
  whose values are indices of \<open>probs\<close>, so for the trie of a token table and a vector
  over the table. With an addition that does not round the accumulated sum is the plain
  sum over those nodes; and the nodes with a token in the trie of a table carry the
  first id of every byte string of the table, each once (all ids when the entries are
  pairwise distinct).
\<close>

theorem compute_probs_aggregates:
  "(compute_probs fadd t probs = Some t' \<longrightarrow>
      (\<forall>n \<in> set (subtries t'). ByteTrie.prob n = accumulated fadd (probs_at probs) n) \<and>
      clear_probs t' = clear_probs t \<and>
      compute_probs fadd t' probs = Some t') \<and>
   (values_below (length probs) t \<longrightarrow> (\<exists>r. compute_probs fadd t probs = Some r)) \<and>
   (length probs = length toks \<longrightarrow>
      (\<exists>r. compute_probs fadd (ByteTrie_init toks) probs = Some r)) \<and>
   accumulated (+) f t = terminal_sum f t \<and>
   terminal_sum f (ByteTrie_init toks) = sum_list (map (\<lambda>i. f (int i)) (first_ids toks)) \<and>
   (distinct toks \<longrightarrow> first_ids toks = [0..<length toks])"
proof (intro conjI impI)
  assume "compute_probs fadd t probs = Some t'"
  with compute_probs_sound(1) [of fadd t probs]
  show "\<forall>n \<in> set (subtries t'). ByteTrie.prob n = accumulated fadd (probs_at probs) n"
    and "clear_probs t' = clear_probs t"
    and "compute_probs fadd t' probs = Some t'"
    by blast+
next
  assume "values_below (length probs) t"
  with compute_probs_succeeds(1) [of probs t fadd]
  show "\<exists>r. compute_probs fadd t probs = Some r"
    by blast
next
  assume "length probs = length toks"
  with values_below_ByteTrie_init [of toks] compute_probs_succeeds(1) [of probs "ByteTrie_init toks" fadd]
  show "\<exists>r. compute_probs fadd (ByteTrie_init toks) probs = Some r"
    by simp
next
  show "accumulated (+) f t = terminal_sum f t"
    by (rule accumulated_plus)
next
  show "terminal_sum f (ByteTrie_init toks) = sum_list (map (\<lambda>i. f (int i)) (first_ids toks))"
    by (rule terminal_sum_ByteTrie_init_first_ids)
next
  assume "distinct toks"
  then show "first_ids toks = [0..<length toks]"
    by (rule first_ids_distinct)
qed

theorem compute_probs_aggregates_witness:
  "compute_probs dadd (ByteTrie_init [[0x61], [0x61, 0x62]]) [1 / 4, 3 / 4] =
     Some (ByteTrie 1 (- 1) [(0x61, ByteTrie 1 0 [(0x62, ByteTrie (3 / 4) 1 [])])]) \<and>
   compute_probs dadd (ByteTrie 1 (- 1) [(0x61, ByteTrie 1 0 [(0x62, ByteTrie (3 / 4) 1 [])])])
     [1 / 4, 3 / 4] =
     Some (ByteTrie 1 (- 1) [(0x61, ByteTrie 1 0 [(0x62, ByteTrie (3 / 4) 1 [])])]) \<and>
   first_ids [[0x61], [0x61, 0x62 :: byte]] = [0, 1]"
proof -
  let ?t = "ByteTrie_init [[0x61], [0x61, 0x62]]"
  let ?r = "ByteTrie 1 (- 1) [(0x61, ByteTrie 1 0 [(0x62, ByteTrie (3 / 4) 1 [])])]"
  have c: "compute_probs dadd ?t [1 / 4, 3 / 4] = Some ?r"
    by (simp only: compute_probs_a_ab dadd_examples)
  have d: "distinct [[0x61], [0x61, 0x62 :: byte]]" by simp
  from c d compute_probs_aggregates [of dadd ?t "[1 / 4, 3 / 4]" ?r "[[0x61], [0x61, 0x62]]"]
  show ?thesis
    by (simp add: upt_rec)
qed

text \<open>
  The claim as it stands fails in two ways. For a table with a repeated entry the
  second id of the repeated byte string is in no node, and its probability is missing
  at the root: \<open>1/2\<close> instead of \<open>1\<close>. And for the pairwise distinct entries
  \<^verbatim>\<open>ab\<close>, \<^verbatim>\<open>ac\<close>, \<^verbatim>\<open>a\<close>, \<^verbatim>\<open>b\<close> and a vector that sums to \<open>1\<close>, exactly and also
  when its doubles are added in the order of the vector, the additions in the order of
  the trie round: \<open>1 / 2 ^ 54\<close> is lost twice against \<open>1/2\<close>, and the root is
  \<open>1 - 1 / 2 ^ 53\<close>.
\<close>

theorem compute_probs_root_counterexample:
  "sum_list [1 / 2, 1 / 2 :: real] = 1 \<and>
   compute_probs dadd (ByteTrie_init [[0x61], [0x61]]) [1 / 2, 1 / 2] =
     Some (ByteTrie (1 / 2) (- 1) [(0x61, ByteTrie (1 / 2) 0 [])]) \<and>
   distinct [[0x61, 0x62], [0x61, 0x63], [0x61], [0x62 :: byte]] \<and>
   sum_list [1 / 2 ^ 54, 1 / 2 ^ 54, 1 / 2, 1 / 2 - 1 / 2 ^ 53 :: real] = 1 \<and>
   foldl dadd 0 [1 / 2 ^ 54, 1 / 2 ^ 54, 1 / 2, 1 / 2 - 1 / 2 ^ 53] = 1 \<and>
   compute_probs dadd (ByteTrie_init [[0x61, 0x62], [0x61, 0x63], [0x61], [0x62]])
     [1 / 2 ^ 54, 1 / 2 ^ 54, 1 / 2, 1 / 2 - 1 / 2 ^ 53] =
     Some (ByteTrie (1 - 1 / 2 ^ 53) (- 1)
             [(0x61, ByteTrie (1 / 2) 2
                       [(0x62, ByteTrie (1 / 2 ^ 54) 0 []), (0x63, ByteTrie (1 / 2 ^ 54) 1 [])]),
              (0x62, ByteTrie (1 / 2 - 1 / 2 ^ 53) 3 [])])"
proof (intro conjI)
  show "compute_probs dadd (ByteTrie_init [[0x61], [0x61]]) [1 / 2, 1 / 2] =
     Some (ByteTrie (1 / 2) (- 1) [(0x61, ByteTrie (1 / 2) 0 [])])"
    by (simp only: compute_probs_a_a dadd_examples)
  show "foldl dadd 0 [1 / 2 ^ 54, 1 / 2 ^ 54, 1 / 2, 1 / 2 - 1 / 2 ^ 53] = 1"
    by (simp only: foldl.simps dadd_examples dadd_examples2)
  show "compute_probs dadd (ByteTrie_init [[0x61, 0x62], [0x61, 0x63], [0x61], [0x62]])
     [1 / 2 ^ 54, 1 / 2 ^ 54, 1 / 2, 1 / 2 - 1 / 2 ^ 53] =
     Some (ByteTrie (1 - 1 / 2 ^ 53) (- 1)
             [(0x61, ByteTrie (1 / 2) 2
                       [(0x62, ByteTrie (1 / 2 ^ 54) 0 []), (0x63, ByteTrie (1 / 2 ^ 54) 1 [])]),
              (0x62, ByteTrie (1 / 2 - 1 / 2 ^ 53) 3 [])])"
    by (simp only: compute_probs_ab_ac_a_b dadd_examples)
qed simp_all

section \<open>Claims about the engine\<close>

lemma bias_tokens_NegInf:
  "bias_tokens is (replicate n NegInf, b) = (replicate n NegInf, b / 2 ^ length is)"
proof (induction "is" arbitrary: b)
  case Nil
  then show ?case by simp
next
  case (Cons i "is")
  have "(replicate n NegInf)[i := add_bias (replicate n NegInf ! i) b] = replicate n NegInf"
    by (cases "i < n") (simp_all add: list_update_same_conv list_update_beyond)
  with Cons.IH [of "b / 2"] show ?case by (simp add: field_simps)
qed

lemma bias_patterns_NegInf:
  "bias_patterns tk bs ps (replicate n NegInf, b) = Inr lb \<Longrightarrow> fst lb = replicate n NegInf"
proof (induction ps arbitrary: b)
  case Nil
  then show ?case by auto
next
  case (Cons p ps)
  then show ?case
    by (auto simp: bias_tokens_NegInf split: if_splits sum.splits)
qed

text \<open>
  C1. With \<^verbatim>\<open>force=True\<close> the vector starts as \<open>-\<infinity>\<close> everywhere and the bias is added
  to \<open>-\<infinity>\<close>, which stays \<open>-\<infinity>\<close>: whatever the patterns and the prefix, every score
  that \<^verbatim>\<open>get_logits\<close> returns is \<open>-\<infinity>\<close>, also for the tokens that continue the pattern, and
  the generator is not touched. The claim asks for a finite score for those tokens.
\<close>

theorem force_get_logits_all_neg_inf:
  assumes "force eng" and "get_logits normal eng token_ids = Inr (logits, eng')"
  shows "logits = replicate (length (tokens (tokenizer eng))) NegInf \<and> eng' = eng"
proof -
  obtain bs where j: "join_tokens (tokens (tokenizer eng)) token_ids = Some bs"
    using assms(2) by (cases "join_tokens (tokens (tokenizer eng)) token_ids")
      (simp_all add: get_logits_def)
  let ?bp = "bias_patterns (tokenizer eng) bs (byte_patterns eng)
               (replicate (length (tokens (tokenizer eng))) NegInf, 100)"
  from assms j have "(case ?bp of Inl e \<Rightarrow> Inl e | Inr lb \<Rightarrow> Inr (fst lb, eng)) = Inr (logits, eng')"
    by (simp add: get_logits_def Let_def)
  then obtain lb where "?bp = Inr lb" and "logits = fst lb" and "eng' = eng"
    by (cases ?bp) simp_all
  then show ?thesis
    using bias_patterns_NegInf by blast
qed

lemma Mock_bos_token: "bos_token (MockTokenizer_init Mock_tokens) = Some [0x3C, 0x73, 0x3E]"
  by (simp add: bos_token_def MockTokenizer_init_def Mock_tokens_def py_get_def)

lemma Mock_eos_token: "eos_token (MockTokenizer_init Mock_tokens) = Some [0x3C, 0x73, 0x3E]"
  by (simp add: eos_token_def MockTokenizer_init_def Mock_tokens_def py_get_def)

lemma get_next_tokens_returns:
  "bos_token tk = Some b \<Longrightarrow> eos_token tk = Some e \<Longrightarrow> \<exists>ys. get_next_tokens tk s = Inr ys"
  by (simp add: get_next_tokens_def)

lemma bias_patterns_returns:
  "bos_token tk = Some b \<Longrightarrow> eos_token tk = Some e \<Longrightarrow>
   \<exists>lb'. bias_patterns tk bs ps lb = Inr lb'"
proof (induction ps arbitrary: lb)
  case Nil
  then show ?case by simp
next
  case (Cons p ps)
  from get_next_tokens_returns [OF Cons.prems] obtain ys where
    "get_next_tokens tk (drop (length bs) p) = Inr ys"
    by blast
  with Cons.IH [OF Cons.prems] show ?case by simp
qed

lemma get_logits_returns:
  "bos_token (tokenizer eng) = Some b \<Longrightarrow> eos_token (tokenizer eng) = Some e \<Longrightarrow>
   join_tokens (tokens (tokenizer eng)) token_ids = Some bs \<Longrightarrow>
   \<exists>r. get_logits normal eng token_ids = Inr r"
  using bias_patterns_returns [of "tokenizer eng" b e bs "byte_patterns eng"]
  by (simp add: get_logits_def Let_def split: sum.splits) (metis Inl_Inr_False)

lemma Mock_force_cat_returns:
  "\<exists>r. get_logits normal (Mock_init e (OnePattern [0x63, 0x61, 0x74]) clp True) [] = Inr r"
proof -
  have t: "tokenizer (Mock_init e (OnePattern [0x63, 0x61, 0x74]) clp True) =
             MockTokenizer_init Mock_tokens"
    by (simp add: Mock_init_def MockEngine_init_def)
  show ?thesis
    by (rule get_logits_returns [where bs = "[]"])
       (simp_all only: t Mock_bos_token Mock_eos_token join_tokens.simps)
qed

theorem force_get_logits_all_neg_inf_witness:
  "get_logits (\<lambda>seed k. 0) (Mock_init 0 (OnePattern [0x63, 0x61, 0x74]) False True) [] =
     Inr (replicate (length Mock_tokens) NegInf,
          Mock_init 0 (OnePattern [0x63, 0x61, 0x74]) False True) \<and>
   [0x63] \<in> set Mock_tokens \<and> prefix [0x63] [0x63, 0x61, 0x74 :: byte]"
proof -
  let ?eng = "Mock_init 0 (OnePattern [0x63, 0x61, 0x74]) False True"
  obtain l e where r: "get_logits (\<lambda>seed k. 0) ?eng [] = Inr (l, e)"
    using Mock_force_cat_returns [of "\<lambda>seed k. 0" 0 False] by auto
  have f: "force ?eng" by (simp add: Mock_init_def MockEngine_init_def)
  have t: "tokens (tokenizer ?eng) = Mock_tokens"
    by (simp add: Mock_init_def MockEngine_init_def MockTokenizer_init_def)
  from force_get_logits_all_neg_inf [OF f r] r t show ?thesis
    by (simp add: all_bytes_in_Mock_tokens)
qed

text \<open>
  C9. Reproducibility. The constructor seeds the generator with \<open>42\<close>, so the engine it
  builds does not depend on the entropy of the run: two engines built from the same
  tokenizer, patterns and flags, in runs with entropies \<open>e1\<close> and \<open>e2\<close>, return the same
  vectors for the same sequence of \<^verbatim>\<open>get_logits\<close> calls.
\<close>

theorem get_logits_reproducible:
  "get_logits_calls normal (MockEngine_init e1 tk pats clp frc) calls =
   get_logits_calls normal (MockEngine_init e2 tk pats clp frc) calls"
  by (simp add: MockEngine_init_def default_rng_def)


lemma add_bias_add: "add_bias (add_bias s x) y = add_bias s (x + y)"
  by (cases s) simp_all

lemma add_bias_0 [simp]: "add_bias s 0 = s"
  by (cases s) simp_all

lemma bias_tokens_length [simp]: "length (fst (bias_tokens is lb)) = length (fst lb)"
proof (induction "is" arbitrary: lb)
  case Nil
  then show ?case by simp
next
  case (Cons i "is")
  obtain l b where "lb = (l, b)" by (cases lb)
  with Cons.IH [of "(l[i := add_bias (l ! i) b], b / 2)"] show ?case by simp
qed

lemma bias_tokens_nth:
  "j < length l \<Longrightarrow> fst (bias_tokens is (l, b)) ! j = add_bias (l ! j) (bias_total is b j)"
proof (induction "is" arbitrary: l b)
  case Nil
  then show ?case by simp
next
  case (Cons i "is")
  from Cons.prems have "j < length (l[i := add_bias (l ! i) b])" by simp
  from Cons.IH [OF this, of "b / 2"] Cons.prems show ?case
    by (cases "i = j") (simp_all add: add_bias_add)
qed

lemma bias_tokens_append:
  "bias_tokens (ys @ zs) lb = bias_tokens zs (bias_tokens ys lb)"
proof (induction ys arbitrary: lb)
  case Nil
  then show ?case by simp
next
  case (Cons i ys)
  obtain l b where "lb = (l, b)" by (cases lb)
  with Cons.IH show ?case by simp
qed

lemma bias_patterns_yielded:
  "bias_patterns tk bs ps lb =
     (case yielded tk bs ps of Inl e \<Rightarrow> Inl e | Inr ys \<Rightarrow> Inr (bias_tokens ys lb))"
  by (induction ps arbitrary: lb) (auto simp: bias_tokens_append split: sum.splits)

lemma get_logits_noise:
  assumes "\<not> force eng"
    and "length (valid_mask eng) = length (tokens (tokenizer eng))"
    and "join_tokens (tokens (tokenizer eng)) token_ids = Some bs"
    and "yielded (tokenizer eng) bs (byte_patterns eng) = Inr ys"
  shows "get_logits normal eng token_ids =
           Inr (map (\<lambda>j. Fin (normal (rng_seed (rand_generator eng)) (cursor (rand_generator eng) + j)
                                * valid_mask eng ! j + bias_total ys 100 j))
                  [0..<length (tokens (tokenizer eng))],
                eng\<lparr>rand_generator :=
                      (rand_generator eng)\<lparr>cursor := cursor (rand_generator eng) +
                                                     length (tokens (tokenizer eng))\<rparr>\<rparr>)"
proof -
  let ?n = "length (tokens (tokenizer eng))"
  let ?g = "rand_generator eng"
  let ?l = "map2 (\<lambda>z m. Fin (z * m)) (fst (standard_normal normal ?g ?n)) (valid_mask eng)"
  have len: "length ?l = ?n"
    using assms(2) by (simp add: standard_normal_def)
  have "fst (bias_tokens ys (?l, 100)) =
          map (\<lambda>j. Fin (normal (rng_seed ?g) (cursor ?g + j) * valid_mask eng ! j
                          + bias_total ys 100 j)) [0..<?n]"
  proof (rule nth_equalityI)
    show "length (fst (bias_tokens ys (?l, 100))) = length (map (\<lambda>j. Fin (normal (rng_seed ?g) (cursor ?g + j) * valid_mask eng ! j
                          + bias_total ys 100 j)) [0..<?n])"
      using len by simp
  next
    fix j assume "j < length (fst (bias_tokens ys (?l, 100)))"
    then have "j < length ?l" by (simp only: bias_tokens_length fst_conv)
    then have j: "j < ?n" by (simp only: len)
    then have "?l ! j = Fin (normal (rng_seed ?g) (cursor ?g + j) * valid_mask eng ! j)"
      using assms(2) by (simp add: standard_normal_def)
    with j len show "fst (bias_tokens ys (?l, 100)) ! j =
        map (\<lambda>j. Fin (normal (rng_seed ?g) (cursor ?g + j) * valid_mask eng ! j
                          + bias_total ys 100 j)) [0..<?n] ! j"
      by (simp add: bias_tokens_nth)
  qed
  then show ?thesis
    using assms(1,3,4)
    by (simp add: get_logits_def Let_def bias_patterns_yielded standard_normal_def)
qed

lemma valid_mask_length:
  "length (valid_mask (MockEngine_init e tk pats clp frc)) =
   length (tokens (tokenizer (MockEngine_init e tk pats clp frc)))"
  by (simp add: MockEngine_init_def)



















lemma length_softmax_exp [simp]: "length (softmax_exp l) = length l"
  by (simp add: softmax_exp_def)




lemma sab_engine_facts:
  "tokens (tokenizer sab_engine) = sab_tokens"
  "byte_patterns sab_engine = [[0x3C, 0x73, 0x3E, 0x61, 0x62]]"
  "\<not> force sab_engine"
  "valid_mask sab_engine = [1, 1, 1]"
  "rand_generator sab_engine = \<lparr> rng_seed = 42, cursor = 0 \<rparr>"
  "bos_token_id (tokenizer sab_engine) = 0"
  "eos_token_id (tokenizer sab_engine) = 0"
  "bos_token (tokenizer sab_engine) = Some [0x3C, 0x73, 0x3E]"
  "eos_token (tokenizer sab_engine) = Some [0x3C, 0x73, 0x3E]"
  by (simp_all add: sab_engine_def MockEngine_init_def MockTokenizer_init_def sab_tokens_def
        default_rng_def bos_token_def eos_token_def py_get_def)

lemma sab_next_tokens: "get_next_tokens (tokenizer sab_engine) [0x61, 0x62] = Inr [1, 2]"
  by (simp add: get_next_tokens_def sab_engine_facts sab_tokens_def upt_rec nth_Cons')

lemma sab_get_logits:
  "get_logits normal sab_engine [0] =
     Inr ([Fin (normal 42 0), Fin (normal 42 1 + 100), Fin (normal 42 2 + 50)],
          sab_engine\<lparr>rand_generator := \<lparr> rng_seed = 42, cursor = 3 \<rparr>\<rparr>)"
proof -
  have j: "join_tokens (tokens (tokenizer sab_engine)) [0] = Some [0x3C, 0x73, 0x3E]"
    by (simp add: sab_engine_facts sab_tokens_def py_get_def)
  have y: "yielded (tokenizer sab_engine) [0x3C, 0x73, 0x3E] (byte_patterns sab_engine) =
             Inr [1, 2]"
    by (simp add: sab_engine_facts(2) sab_next_tokens)
  have "length (valid_mask sab_engine) = length (tokens (tokenizer sab_engine))"
    by (simp add: sab_engine_facts sab_tokens_def)
  from get_logits_noise [OF sab_engine_facts(3) this j y, of normal] show ?thesis
    by (simp add: sab_engine_facts sab_tokens_def upt_rec numeral_2_eq_2 numeral_3_eq_3)
qed

lemma argsort_3:
  "a < c \<Longrightarrow> c < b \<Longrightarrow> argsort [Fin a, Fin b, Fin c] = [0, 2, 1]"
  by (simp add: argsort_def upt_rec)

lemma sab_decode:
  "decode_utf8 (tokenizer sab_engine) 0 = Inr [0x3C, 0x73, 0x3E]"
  "decode_utf8 (tokenizer sab_engine) 1 = Inr [0x61]"
  "decode_utf8 (tokenizer sab_engine) 2 = Inr [0x61, 0x62]"
  by (simp_all add: decode_utf8_def decode_def sab_engine_facts sab_tokens_def)

text \<open>
  C2. In the loop over the positions the variable \<^verbatim>\<open>token_id\<close> is set to
  \<^verbatim>\<open>token_ids[i]\<close> and then bound again by \<^verbatim>\<open>for token_id in top_k_indices\<close>, so the
  entry of a position reports the id that this inner loop visited last and the
  probability of that id. Here the engine has the tokens \<^verbatim>\<open><s>\<close>, \<^verbatim>\<open>a\<close>, \<^verbatim>\<open>ab\<close> and the
  pattern \<^verbatim>\<open><s>ab\<close>, and the input is \<^verbatim>\<open>[0, 1]\<close>: after \<^verbatim>\<open><s>\<close> the bias puts \<^verbatim>\<open>a\<close> first
  and \<^verbatim>\<open>ab\<close> second whatever the noise (a standard-normal draw is far below \<open>25\<close> in
  size), the top five are the ids \<open>1, 2, 0\<close>, and the entry for position \<open>1\<close>, where the
  token is \<open>1\<close>, reports the id \<open>0\<close> with the probability of \<open>0\<close>.
\<close>

theorem per_token_entry_reports_last_top_k_index:
  assumes "\<forall>k < 3. \<bar>normal 42 k\<bar> < 25" and "\<forall>xs. length (softmax xs) = length xs"
  shows "get_per_token_topk_probs normal softmax sab_engine [0, 1] 5 =
     Inr ([\<lparr> token_id = 0, prob = Some 1, bytes = [0x3C, 0x73, 0x3E],
             top_k = [\<lparr> token_id = 0, prob = None, bytes = [0x3C, 0x73, 0x3E] \<rparr>] \<rparr>,
           \<lparr> token_id = 0,
             prob = Some (softmax [Fin (normal 42 0), Fin (normal 42 1 + 100),
                                   Fin (normal 42 2 + 50)] ! 0),
             bytes = [0x3C, 0x73, 0x3E],
             top_k =
               [\<lparr> token_id = 1,
                   prob = Some (softmax [Fin (normal 42 0), Fin (normal 42 1 + 100),
                                         Fin (normal 42 2 + 50)] ! 1),
                   bytes = [0x61] \<rparr>,
                \<lparr> token_id = 2,
                   prob = Some (softmax [Fin (normal 42 0), Fin (normal 42 1 + 100),
                                         Fin (normal 42 2 + 50)] ! 2),
                   bytes = [0x61, 0x62] \<rparr>,
                \<lparr> token_id = 0,
                   prob = Some (softmax [Fin (normal 42 0), Fin (normal 42 1 + 100),
                                         Fin (normal 42 2 + 50)] ! 0),
                   bytes = [0x3C, 0x73, 0x3E] \<rparr>] \<rparr>],
          sab_engine\<lparr>rand_generator := \<lparr> rng_seed = 42, cursor = 3 \<rparr>\<rparr>)"
proof -
  define l where "l = [Fin (normal 42 0), Fin (normal 42 1 + 100), Fin (normal 42 2 + 50)]"
  let ?e = "sab_engine\<lparr>rand_generator := \<lparr> rng_seed = 42, cursor = 3 \<rparr>\<rparr>"
  have g: "get_logits normal sab_engine [0] = Inr (l, ?e)"
    unfolding l_def by (rule sab_get_logits)
  from assms(1) have b: "\<bar>normal 42 0\<bar> < 25" "\<bar>normal 42 1\<bar> < 25" "\<bar>normal 42 2\<bar> < 25"
    by simp_all
  then have "argsort l = [0, 2, 1]"
    unfolding l_def by (intro argsort_3) linarith+
  then have top: "map int (rev (slice_from_neg (argsort l) 5)) = [1, 2, 0]"
    by (simp add: slice_from_neg_def)
  have len: "length (softmax l) = 3" using assms(2) by (simp add: l_def)
  have p: "py_get (softmax l) 0 = Some (softmax l ! 0)"
    "py_get (softmax l) 1 = Some (softmax l ! 1)"
    "py_get (softmax l) 2 = Some (softmax l ! 2)"
    using len by (simp_all add: py_get_def)
  have loop: "positions_loop normal softmax sab_engine [0, 1] 5 1 res =
          Inr (res @ [\<lparr> token_id = 0, prob = Some (softmax l ! 0), bytes = [0x3C, 0x73, 0x3E],
             top_k =
               [\<lparr> token_id = 1, prob = Some (softmax l ! 1), bytes = [0x61] \<rparr>,
                \<lparr> token_id = 2, prob = Some (softmax l ! 2), bytes = [0x61, 0x62] \<rparr>,
                \<lparr> token_id = 0, prob = Some (softmax l ! 0),
                   bytes = [0x3C, 0x73, 0x3E] \<rparr>] \<rparr>], ?e)" for res
    apply (subst positions_loop.simps)
    apply (simp add: g top p sab_decode Let_def)
    apply (subst positions_loop.simps)
    apply simp
    done
  show ?thesis
    unfolding l_def [symmetric]
    by (simp add: get_per_token_topk_probs_def Let_def sab_engine_facts sab_decode
          loop [unfolded One_nat_def])
qed

theorem per_token_entry_reports_last_top_k_index_witness:
  "get_per_token_topk_probs (\<lambda>seed k. 0) softmax_exp sab_engine [0, 1] 5 =
     Inr ([\<lparr> token_id = 0, prob = Some 1, bytes = [0x3C, 0x73, 0x3E],
             top_k = [\<lparr> token_id = 0, prob = None, bytes = [0x3C, 0x73, 0x3E] \<rparr>] \<rparr>,
           \<lparr> token_id = 0,
             prob = Some (softmax_exp [Fin 0, Fin 100, Fin 50] ! 0),
             bytes = [0x3C, 0x73, 0x3E],
             top_k =
               [\<lparr> token_id = 1, prob = Some (softmax_exp [Fin 0, Fin 100, Fin 50] ! 1),
                   bytes = [0x61] \<rparr>,
                \<lparr> token_id = 2, prob = Some (softmax_exp [Fin 0, Fin 100, Fin 50] ! 2),
                   bytes = [0x61, 0x62] \<rparr>,
                \<lparr> token_id = 0, prob = Some (softmax_exp [Fin 0, Fin 100, Fin 50] ! 0),
                   bytes = [0x3C, 0x73, 0x3E] \<rparr>] \<rparr>],
          sab_engine\<lparr>rand_generator := \<lparr> rng_seed = 42, cursor = 3 \<rparr>\<rparr>)"
  using per_token_entry_reports_last_top_k_index [of "\<lambda>seed k. 0" softmax_exp]
  by simp

end
